theory Spec2Isabelle
  imports Main "HOL-Library.Char_ord" "HOL-Library.List_Lexorder"
begin

section \<open>Python strings\<close>

text \<open>
  Strings are lists of characters. A character is a code point below 256 (HOL's 8-bit
  \<open>char\<close>, read as Latin-1); texts with other code points are outside the model.
\<close>

definition startswith :: "string \<Rightarrow> string \<Rightarrow> bool" where
  "startswith s p = (take (length p) s = p)"

definition endswith :: "string \<Rightarrow> string \<Rightarrow> bool" where
  "endswith s p = (length p \<le> length s \<and> drop (length s - length p) s = p)"

text \<open>\<open>str_in p s\<close> is Python's \<open>p in s\<close>: \<open>p\<close> occurs in \<open>s\<close> as a contiguous run.\<close>

fun str_in :: "string \<Rightarrow> string \<Rightarrow> bool" where
  "str_in p [] = (p = [])"
| "str_in p (c # cs) = (startswith (c # cs) p \<or> str_in p cs)"

text \<open>\<open>split_on d s\<close> is \<open>s.split(d)\<close> for a one-character separator.\<close>

fun split_on :: "char \<Rightarrow> string \<Rightarrow> string list" where
  "split_on d [] = [[]]"
| "split_on d (c # cs) =
     (if c = d then [] # split_on d cs
      else (case split_on d cs of
              [] \<Rightarrow> [[c]]
            | p # ps \<Rightarrow> (c # p) # ps))"

text \<open>\<open>join_with sep parts\<close> is \<open>sep.join(parts)\<close>.\<close>

fun join_with :: "string \<Rightarrow> string list \<Rightarrow> string" where
  "join_with sep [] = []"
| "join_with sep [p] = p"
| "join_with sep (p # q # ps) = p @ sep @ join_with sep (q # ps)"

text \<open>
  \<open>str.isalpha\<close>, \<open>str.isdigit\<close> and \<open>str.isspace\<close> on one character, as Unicode
  classifies the code points below 256: the letters are \<open>A\<close>-\<open>Z\<close>, \<open>a\<close>-\<open>z\<close>, the
  ordinal indicators (170, 186), the micro sign (181) and 192-255 without the
  multiplication and division signs (215, 247); the digits are \<open>0\<close>-\<open>9\<close> and the
  superscripts one, two and three (185, 178, 179); white space is 9-13, 28-32, the
  next-line control (133) and the no-break space (160).
\<close>

definition isalpha :: "char \<Rightarrow> bool" where
  "isalpha c = ((65 \<le> (of_char c :: nat) \<and> (of_char c :: nat) \<le> 90)
              \<or> (97 \<le> (of_char c :: nat) \<and> (of_char c :: nat) \<le> 122)
              \<or> (of_char c :: nat) = 170 \<or> (of_char c :: nat) = 181 \<or> (of_char c :: nat) = 186
              \<or> (192 \<le> (of_char c :: nat) \<and> (of_char c :: nat) \<le> 214)
              \<or> (216 \<le> (of_char c :: nat) \<and> (of_char c :: nat) \<le> 246)
              \<or> 248 \<le> (of_char c :: nat))"

definition isdigit :: "char \<Rightarrow> bool" where
  "isdigit c = ((48 \<le> (of_char c :: nat) \<and> (of_char c :: nat) \<le> 57)
              \<or> (of_char c :: nat) = 178 \<or> (of_char c :: nat) = 179 \<or> (of_char c :: nat) = 185)"

definition isspace :: "char \<Rightarrow> bool" where
  "isspace c = ((9 \<le> (of_char c :: nat) \<and> (of_char c :: nat) \<le> 13)
              \<or> (28 \<le> (of_char c :: nat) \<and> (of_char c :: nat) \<le> 32)
              \<or> (of_char c :: nat) = 133 \<or> (of_char c :: nat) = 160)"

text \<open>\<open>strip s\<close> is \<open>s.strip()\<close>: leading and trailing whitespace removed.\<close>

definition strip :: "string \<Rightarrow> string" where
  "strip s = rev (dropWhile isspace (rev (dropWhile isspace s)))"

text \<open>Decimal rendering of integers, as an f-string prints them.\<close>

definition digit_char :: "nat \<Rightarrow> char" where
  "digit_char d = ''0123456789'' ! d"

fun str_nat :: "nat \<Rightarrow> string" where
  "str_nat n = (if n < 10 then [digit_char n] else str_nat (n div 10) @ [digit_char (n mod 10)])"

declare str_nat.simps [simp del]

definition str_int :: "int \<Rightarrow> string" where
  "str_int i = (if i < 0 then CHR ''-'' # str_nat (nat (- i)) else str_nat (nat i))"

text \<open>
  A value read with \<open>dict.get\<close> is \<open>None\<close> when the key is missing; an f-string
  prints \<open>None\<close> as the text \<open>None\<close>.
\<close>

definition fmt_id :: "int option \<Rightarrow> string" where
  "fmt_id i = (case i of None \<Rightarrow> ''None'' | Some n \<Rightarrow> str_int n)"

definition fmt_str :: "string option \<Rightarrow> string" where
  "fmt_str s = (case s of None \<Rightarrow> ''None'' | Some t \<Rightarrow> t)"

text \<open>Truthiness of an optional string: \<open>None\<close> and the empty string are false.\<close>

definition truthy :: "string option \<Rightarrow> bool" where
  "truthy s = (case s of None \<Rightarrow> False | Some t \<Rightarrow> t \<noteq> [])"


section \<open>Items\<close>

text \<open>
  The exceptions of the source that are not \<open>RequestException\<close>s.
\<close>

datatype py_error = KeyError | TypeError | AttributeError

text \<open>
  A key of a JSON object is missing, or present with the value \<open>null\<close>, or present
  with a value; \<open>dict_get\<close> is \<open>d.get(key)\<close>, which is \<open>None\<close> in the first two cases.
\<close>

datatype 'a field_value = Missing | JNull | Val 'a

definition dict_get :: "'a field_value \<Rightarrow> 'a option" where
  "dict_get f = (case f of Missing \<Rightarrow> None | JNull \<Rightarrow> None | Val v \<Rightarrow> Some v)"

text \<open>
  The \<open>user\<close> key of an image record: missing, \<open>null\<close>, or an object with its
  \<open>username\<close> (\<open>None\<close> when the object has none). \<open>user_username\<close> is
  \<open>img_data.get('user', {}).get('username')\<close>: on \<open>null\<close> the first \<open>get\<close> returns \<open>None\<close>
  and the second raises \<open>AttributeError\<close>.
\<close>

datatype user_ref = NoUser | NullUser | UserObj "string option"

definition user_username :: "user_ref \<Rightarrow> py_error + string option" where
  "user_username r = (case r of NoUser \<Rightarrow> Inr None | NullUser \<Rightarrow> Inl AttributeError | UserObj n \<Rightarrow> Inr n)"

text \<open>
  The fields of an image record of the API that the downloaders read. A field of
  option type is the value of \<open>get\<close> on its key: \<open>None\<close> when the key is missing or
  \<open>null\<close>. The source tells the two cases apart for \<open>createdAt\<close> and \<open>user\<close>, which
  have the types above, and for \<open>id\<close> in the merge, where \<open>img['id']\<close> raises when the
  key is missing: there \<open>i_id = None\<close> is a record without the key. \<open>i_postId\<close> and
  \<open>i_postDate\<close> are attached when the image is unpacked from a post.
\<close>

record item =
  i_id :: "int option"
  i_url :: "string option"
  i_name :: "string option"
  i_type :: "string option"
  i_mimeType :: "string option"
  i_userId :: "int option"
  i_createdAt :: "string field_value"
  i_user :: user_ref
  i_postId :: "int option"
  i_postDate :: "string option"


section \<open>File names and canonical URLs of download_image\<close>

definition base_host :: string where
  "base_host = ''https://image.civitai.com/xG1nkqKTMzGDvpLrqFT7WA/''"

text \<open>The character filter applied to names (\<open>sanitize\<close>) and to whole file names
  (\<open>sanitize_filename\<close>, which also keeps the dot), each followed by \<open>strip()\<close>.\<close>

definition sanitize :: "string \<Rightarrow> string" where
  "sanitize s =
     strip (filter (\<lambda>c. isalpha c \<or> isdigit c \<or> c = CHR '' '' \<or> c = CHR ''-'' \<or> c = CHR ''_'') s)"

definition sanitize_filename :: "string \<Rightarrow> string" where
  "sanitize_filename s =
     strip (filter (\<lambda>c. isalpha c \<or> isdigit c \<or> c = CHR '' '' \<or> c = CHR ''-'' \<or> c = CHR ''_''
                        \<or> c = CHR ''.'') s)"

text \<open>Replacing every path segment \<open>width=...\<close> by \<open>original=true\<close>.\<close>

definition rewrite_width :: "string \<Rightarrow> string" where
  "rewrite_width u =
     join_with ''/'' (map (\<lambda>part. if startswith part ''width='' then ''original=true'' else part)
                          (split_on CHR ''/'' u))"

text \<open>The extension inferred from the last path segment of the URL, if it has a dot
  (the second test is on the segment with its query string cut off).\<close>

definition url_suffix_ext :: "string \<Rightarrow> string \<Rightarrow> string" where
  "url_suffix_ext u dflt =
     (let ext_part = hd (split_on CHR ''?'' (last (split_on CHR ''/'' u)))
      in if CHR ''.'' \<in> set ext_part then last (split_on CHR ''.'' ext_part) else dflt)"

subsection \<open>civitai_downloader.py\<close>

definition original_url_user :: "string \<Rightarrow> item \<Rightarrow> string" where
  "original_url_user u it =
     (if \<not> startswith u ''http'' then
        (if truthy (i_name it)
         then base_host @ u @ ''/original=true/'' @ fmt_str (i_name it)
         else base_host @ u @ ''/original=true/image.png'')
      else if str_in ''/width='' u then rewrite_width u
      else u)"

definition name_user :: "item \<Rightarrow> string" where
  "name_user it =
     (let nm = (if truthy (i_name it) then fmt_str (i_name it) else ''image_'' @ fmt_id (i_id it));
          nm = (if nm \<noteq> [] then sanitize nm else nm)
      in if nm = [] then ''image_'' @ fmt_id (i_id it) else nm)"

definition resolve_ext_user :: "string \<Rightarrow> item \<Rightarrow> string" where
  "resolve_ext_user u it =
     (let ext = ''png'';
          ext = (if CHR ''.'' \<in> set (last (split_on CHR ''/'' u)) then url_suffix_ext u ext else ext);
          ext = (if i_type it = Some ''video'' then ''mp4'' else ext);
          ext = (if endswith u ''.mp4'' then ''mp4'' else ext)
      in ext)"

text \<open>The length cap: a name longer than 200 characters is cut to its first 100 and
  the id and extension are appended again.\<close>

definition cap_filename :: "string \<Rightarrow> item \<Rightarrow> string \<Rightarrow> string" where
  "cap_filename fname it ext =
     (if length fname > 200 then take 100 fname @ ''_'' @ fmt_id (i_id it) @ ''.'' @ ext
      else fname)"

definition filename_user :: "string \<Rightarrow> item \<Rightarrow> string" where
  "filename_user u it =
     (let ext = resolve_ext_user u it;
          fname = name_user it @ ''_'' @ fmt_id (i_id it) @ ''.'' @ ext
      in cap_filename (sanitize_filename fname) it ext)"

subsection \<open>civitai_collection_downloader.py\<close>

definition resolve_ext_coll :: "string \<Rightarrow> item \<Rightarrow> string" where
  "resolve_ext_coll u it =
     (if i_mimeType it = Some ''video/mp4'' \<or> i_type it = Some ''video'' \<or> endswith u ''.mp4''
      then ''mp4''
      else if CHR ''.'' \<in> set (last (split_on CHR ''/'' u)) then url_suffix_ext u ''png''
      else ''png'')"

text \<open>For a bare storage token the collection downloader reads \<open>name\<close> a second time
  and only sanitizes it: a missing name stays \<open>None\<close> from there on.\<close>

definition name_coll :: "string \<Rightarrow> item \<Rightarrow> string option" where
  "name_coll u it =
     (if \<not> startswith u ''http'' then
        (if truthy (i_name it) then Some (sanitize (fmt_str (i_name it))) else i_name it)
      else Some (name_user it))"

text \<open>The creator's name as it goes into the file name, where the lookup of
  \<open>username\<close> returns; where it raises, no file name is built (see
  \<open>download_image_coll\<close>).\<close>

definition username_coll :: "item \<Rightarrow> string option" where
  "username_coll it =
     (case user_username (i_user it) of
        Inl e \<Rightarrow> None
      | Inr username \<Rightarrow> if truthy username then Some (sanitize (fmt_str username)) else username)"

definition original_url_coll :: "string \<Rightarrow> item \<Rightarrow> string" where
  "original_url_coll u it =
     (if \<not> startswith u ''http'' then
        (if resolve_ext_coll u it = ''mp4'' then
           (if truthy (name_coll u it)
            then base_host @ u @ ''/original=true/'' @ fmt_str (name_coll u it) @ ''.mp4''
            else base_host @ u @ ''/original=true/video.mp4'')
         else
           (if truthy (name_coll u it)
            then base_host @ u @ ''/original=true/'' @ fmt_str (name_coll u it)
            else base_host @ u @ ''/original=true/image.png''))
      else if str_in ''/width='' u then rewrite_width u
      else u)"

definition filename_coll :: "string \<Rightarrow> item \<Rightarrow> string" where
  "filename_coll u it =
     (let ext = resolve_ext_coll u it;
          fname = (if truthy (username_coll it)
                   then fmt_str (username_coll it) @ ''_'' @ fmt_str (name_coll u it) @ ''_''
                        @ fmt_id (i_id it) @ ''.'' @ ext
                   else fmt_str (name_coll u it) @ ''_'' @ fmt_id (i_id it) @ ''.'' @ ext)
      in cap_filename (sanitize_filename fname) it ext)"


section \<open>The target directory and the network\<close>

text \<open>
  The target directory maps a file name to the file's content; a name that is not
  mapped does not exist. Files are regular files, and removing, renaming and writing
  succeed on them (\<open>os.rename\<close> replaces an existing target, as on POSIX).

  Everything the worker does to the outside is appended to a trace: the random pause
  before a request (\<open>Jitter\<close>), a request, a back-off sleep in seconds, and the
  changes of the directory.
\<close>

type_synonym files = "string \<rightharpoonup> string"

datatype event =
    Jitter
  | Get string
  | Sleep nat
  | Removed string
  | Renamed string string
  | Wrote string

text \<open>
  What one call of \<open>requests.get\<close> does: it returns a response (status code, the text
  of the \<open>HTTPError\<close> that \<open>raise_for_status()\<close> raises for it, and the body), or it
  raises a \<open>RequestException\<close> with the given text. The network is a function of the
  number of calls made so far and of the URL requested. A body arrives whole: a
  connection that breaks in the middle of \<open>iter_content\<close> is not modelled.
\<close>

datatype reply = Reply nat string string | Raise string

type_synonym net = "nat \<Rightarrow> string \<Rightarrow> reply"

record world =
  files :: files
  calls :: nat
  trace :: "event list"

definition jitter :: "world \<Rightarrow> world" where
  "jitter w = w\<lparr>trace := trace w @ [Jitter]\<rparr>"

definition sleep :: "nat \<Rightarrow> world \<Rightarrow> world" where
  "sleep n w = w\<lparr>trace := trace w @ [Sleep n]\<rparr>"

definition http_get :: "net \<Rightarrow> string \<Rightarrow> world \<Rightarrow> reply \<times> world" where
  "http_get nt u w = (nt (calls w) u, w\<lparr>calls := calls w + 1, trace := trace w @ [Get u]\<rparr>)"

definition remove_file :: "string \<Rightarrow> world \<Rightarrow> world" where
  "remove_file p w = w\<lparr>files := (files w)(p := None), trace := trace w @ [Removed p]\<rparr>"

definition rename_file :: "string \<Rightarrow> string \<Rightarrow> world \<Rightarrow> world" where
  "rename_file src dst w =
     w\<lparr>files := ((files w)(src := None))(dst := files w src), trace := trace w @ [Renamed src dst]\<rparr>"

definition write_file :: "string \<Rightarrow> string \<Rightarrow> world \<Rightarrow> world" where
  "write_file p body w = w\<lparr>files := (files w)(p \<mapsto> body), trace := trace w @ [Wrote p]\<rparr>"

text \<open>What a trace shows: the URLs requested, the back-off sleeps and the renames, each
  in order.\<close>

definition requests :: "event list \<Rightarrow> string list" where
  "requests t = concat (map (\<lambda>e. case e of Get u \<Rightarrow> [u] | _ \<Rightarrow> []) t)"

definition sleeps :: "event list \<Rightarrow> nat list" where
  "sleeps t = concat (map (\<lambda>e. case e of Sleep n \<Rightarrow> [n] | _ \<Rightarrow> []) t)"

definition renames :: "event list \<Rightarrow> (string \<times> string) list" where
  "renames t = concat (map (\<lambda>e. case e of Renamed a b \<Rightarrow> [(a, b)] | _ \<Rightarrow> []) t)"

text \<open>\<open>os.path.exists(p) and os.path.getsize(p) > 0\<close>.\<close>

definition valid :: "files \<Rightarrow> string \<Rightarrow> bool" where
  "valid fs p = (case fs p of None \<Rightarrow> False | Some b \<Rightarrow> b \<noteq> [])"

text \<open>
  \<open>glob_match i n\<close>: the file name \<open>n\<close> matches the pattern \<open>*_<i>.*\<close>. A star matches
  any run of characters, so the name matches when \<open>_<i>.\<close> occurs in it; \<open>glob\<close> leaves
  out names that start with a dot.
\<close>

definition glob_match :: "int option \<Rightarrow> string \<Rightarrow> bool" where
  "glob_match i n = (str_in (''_'' @ fmt_id i @ ''.'') n \<and> \<not> startswith n ''.'')"


section \<open>Pre-write reconciliation\<close>

text \<open>
  The loop over \<open>potential_dupes\<close>. \<open>os.path.getsize(dupe)\<close> raises
  \<open>FileNotFoundError\<close> for a name that is gone; the handler around the loop catches
  it, which ends the pass.
\<close>

subsection \<open>civitai_downloader.py\<close>

fun reconcile_user :: "string \<Rightarrow> string list \<Rightarrow> world \<Rightarrow> world" where
  "reconcile_user filepath [] w = w"
| "reconcile_user filepath (dupe # rest) w =
     (if dupe = filepath then reconcile_user filepath rest w
      else if valid (files w) filepath then
        reconcile_user filepath rest (if files w dupe \<noteq> None then remove_file dupe w else w)
      else (case files w dupe of
              None \<Rightarrow> w
            | Some b \<Rightarrow>
                if b \<noteq> [] then reconcile_user filepath rest (rename_file dupe filepath w)
                else reconcile_user filepath rest w))"

subsection \<open>civitai_collection_downloader.py\<close>

text \<open>Here \<open>os.remove\<close> is called without the existence test; its \<open>OSError\<close> for a
  missing file is caught and logged.\<close>

fun reconcile_coll :: "string \<Rightarrow> string list \<Rightarrow> world \<Rightarrow> world" where
  "reconcile_coll filepath [] w = w"
| "reconcile_coll filepath (dupe # rest) w =
     (if dupe = filepath then reconcile_coll filepath rest w
      else if valid (files w) filepath then
        reconcile_coll filepath rest
          (case files w dupe of None \<Rightarrow> w | Some b \<Rightarrow> remove_file dupe w)
      else (case files w dupe of
              None \<Rightarrow> w
            | Some b \<Rightarrow>
                if b \<noteq> [] then reconcile_coll filepath rest (rename_file dupe filepath w)
                else reconcile_coll filepath rest w))"


section \<open>The transfer loop\<close>

text \<open>One pass of the body of \<open>for attempt in range(max_retries)\<close> either returns from
  \<open>download_image\<close> or goes on to the next attempt.\<close>

datatype outcome = Return bool | Continue

fun for_attempts :: "(nat \<Rightarrow> world \<Rightarrow> outcome \<times> world) \<Rightarrow> nat list \<Rightarrow> world \<Rightarrow> bool \<times> world" where
  "for_attempts body [] w = (False, w)"
| "for_attempts body (attempt # rest) w =
     (case body attempt w of
        (Return b, w') \<Rightarrow> (b, w')
      | (Continue, w') \<Rightarrow> for_attempts body rest w')"

definition max_retries :: nat where
  "max_retries = 10"

text \<open>The handler of \<open>requests.exceptions.RequestException\<close>, the same in both files.\<close>

definition on_exception :: "nat \<Rightarrow> string \<Rightarrow> world \<Rightarrow> world" where
  "on_exception attempt msg w =
     (if str_in ''429'' msg then sleep ((attempt + 1) * 10) w else sleep 5 w)"

subsection \<open>civitai_downloader.py\<close>

text \<open>From \<open>r.raise_for_status()\<close> on: an error status raises into the handler;
  otherwise the body is written and the size of the written file decides.\<close>

definition finish_user :: "string \<Rightarrow> nat \<Rightarrow> nat \<Rightarrow> string \<Rightarrow> string \<Rightarrow> world \<Rightarrow> outcome \<times> world" where
  "finish_user filepath attempt status etext body w =
     (if 400 \<le> status \<and> status < 600 then (Continue, on_exception attempt etext w)
      else (let w' = write_file filepath body w
            in if valid (files w') filepath then (Return True, w') else (Continue, w')))"

definition attempt_user :: "net \<Rightarrow> string \<Rightarrow> string \<Rightarrow> string \<Rightarrow> nat \<Rightarrow> world \<Rightarrow> outcome \<times> world" where
  "attempt_user nt u original_url filepath attempt w =
     (case http_get nt original_url (jitter w) of
        (Raise msg, w1) \<Rightarrow> (Continue, on_exception attempt msg w1)
      | (Reply status etext body, w1) \<Rightarrow>
          if status = 429 then (Continue, sleep ((attempt + 1) * 10) w1)
          else if status \<noteq> 200 \<and> original_url \<noteq> u \<and> startswith u ''http'' then
            (case http_get nt u w1 of
               (Raise msg, w2) \<Rightarrow> (Continue, on_exception attempt msg w2)
             | (Reply status2 etext2 body2, w2) \<Rightarrow>
                 if status2 = 429 then (Continue, sleep ((attempt + 1) * 10) w2)
                 else finish_user filepath attempt status2 etext2 body2 w2)
          else finish_user filepath attempt status etext body w1)"

text \<open>\<open>ls\<close> is the listing of the target directory that \<open>glob\<close> reads, in its order.
  The handler around the whole function, which turns any other exception into the
  result \<open>False\<close>, has nothing to catch here: the directory operations succeed.\<close>

definition download_image_user :: "net \<Rightarrow> item \<Rightarrow> string list \<Rightarrow> world \<Rightarrow> bool \<times> world" where
  "download_image_user nt it ls w =
     (if \<not> truthy (i_url it) then (False, w)
      else (let u = fmt_str (i_url it);
                original_url = original_url_user u it;
                filepath = filename_user u it;
                w1 = reconcile_user filepath (filter (glob_match (i_id it)) ls) w
            in if valid (files w1) filepath then (True, w1)
               else for_attempts (attempt_user nt u original_url filepath) [0..<max_retries] w1))"

subsection \<open>civitai_collection_downloader.py\<close>

definition attempt_coll :: "net \<Rightarrow> string \<Rightarrow> string \<Rightarrow> string \<Rightarrow> nat \<Rightarrow> world \<Rightarrow> outcome \<times> world" where
  "attempt_coll nt u original_url filepath attempt w =
     (case http_get nt original_url (jitter w) of
        (Raise msg, w1) \<Rightarrow> (Continue, on_exception attempt msg w1)
      | (Reply status etext body, w1) \<Rightarrow>
          if status = 429 then (Continue, sleep ((attempt + 1) * 10) w1)
          else if status = 200 then (Return True, write_file filepath body w1)
          else if original_url \<noteq> u then
            (case http_get nt u w1 of
               (Raise msg, w2) \<Rightarrow> (Continue, on_exception attempt msg w2)
             | (Reply status2 etext2 body2, w2) \<Rightarrow>
                 if status2 = 429 then (Continue, sleep ((attempt + 1) * 10) w2)
                 else if status2 = 200 then (Return True, write_file filepath body2 w2)
                 else (Return False, w2))
          else (Return False, w1))"

text \<open>The \<open>AttributeError\<close> of the \<open>username\<close> lookup is raised before the directory is
  read or a request made; the handler around the whole function turns it into the
  result \<open>False\<close>.\<close>

definition download_image_coll :: "net \<Rightarrow> item \<Rightarrow> string list \<Rightarrow> world \<Rightarrow> bool \<times> world" where
  "download_image_coll nt it ls w =
     (if \<not> truthy (i_url it) then (False, w)
      else (case user_username (i_user it) of
              Inl e \<Rightarrow> (False, w)
            | Inr username \<Rightarrow>
               (let u = fmt_str (i_url it);
                    original_url = original_url_coll u it;
                    filepath = filename_coll u it;
                    w1 = reconcile_coll filepath (filter (glob_match (i_id it)) ls) w
                in if valid (files w1) filepath then (True, w1)
                   else for_attempts (attempt_coll nt u original_url filepath) [0..<max_retries] w1)))"


section \<open>Metadata fetching\<close>

text \<open>
  A cursor is an opaque JSON value (a number or a string); as a condition it is false
  when it is \<open>None\<close>, zero or the empty string.
\<close>

datatype cursor = CNum int | CStr string

definition cursor_truthy :: "cursor option \<Rightarrow> bool" where
  "cursor_truthy c = (case c of None \<Rightarrow> False | Some (CNum n) \<Rightarrow> n \<noteq> 0 | Some (CStr t) \<Rightarrow> t \<noteq> [])"

text \<open>The decoded envelope \<open>result.data.json\<close> of a page: its \<open>items\<close> (empty when the
  key is missing) and its \<open>nextCursor\<close>.\<close>

datatype 'a page = Page (items: "'a list") (nextCursor: "cursor option")

text \<open>
  What one page request does: a response with its status code, the text of the
  \<open>HTTPError\<close> that \<open>raise_for_status()\<close> raises for it and the decoded page, or a
  \<open>RequestException\<close> (from \<open>requests.get\<close> or from decoding) with its text. The
  endpoint is a function of the number of requests made so far and of the cursor sent.
\<close>

datatype 'a api_reply = ApiReply nat string "'a page" | ApiRaise string

type_synonym 'a api = "nat \<Rightarrow> cursor option \<Rightarrow> 'a api_reply"

datatype fetch_event = PageJitter | PageGet "cursor option" | PageSleep nat

record fetch_state =
  f_calls :: nat
  f_trace :: "fetch_event list"

definition fetch_start :: fetch_state where
  "fetch_start = \<lparr>f_calls = 0, f_trace = []\<rparr>"

definition page_jitter :: "fetch_state \<Rightarrow> fetch_state" where
  "page_jitter s = s\<lparr>f_trace := f_trace s @ [PageJitter]\<rparr>"

definition page_sleep :: "nat \<Rightarrow> fetch_state \<Rightarrow> fetch_state" where
  "page_sleep n s = s\<lparr>f_trace := f_trace s @ [PageSleep n]\<rparr>"

text \<open>The cursor goes into the query only when it is true as a condition.\<close>

definition sent_cursor :: "cursor option \<Rightarrow> cursor option" where
  "sent_cursor cur = (if cursor_truthy cur then cur else None)"

definition api_get :: "'a api \<Rightarrow> cursor option \<Rightarrow> fetch_state \<Rightarrow> 'a api_reply \<times> fetch_state" where
  "api_get api cur s =
     (api (f_calls s) (sent_cursor cur),
      s\<lparr>f_calls := f_calls s + 1, f_trace := f_trace s @ [PageGet (sent_cursor cur)]\<rparr>)"

text \<open>What a trace of page requests shows: the cursors requested and the back-off
  sleeps, each in order.\<close>

definition page_requests :: "fetch_event list \<Rightarrow> cursor option list" where
  "page_requests t = concat (map (\<lambda>e. case e of PageGet c \<Rightarrow> [c] | _ \<Rightarrow> []) t)"

definition page_sleeps :: "fetch_event list \<Rightarrow> nat list" where
  "page_sleeps t = concat (map (\<lambda>e. case e of PageSleep n \<Rightarrow> [n] | _ \<Rightarrow> []) t)"

text \<open>
  The retry loop \<open>for attempt in range(max_retries)\<close> around one page request. It
  ends with the decoded page (\<open>break\<close>) or, when the attempts run out, with nothing
  (the \<open>else\<close> of the loop, which leaves the pagination loop). \<open>on_exc\<close> is the handler
  of \<open>RequestException\<close>.
\<close>

fun fetch_page ::
  "(nat \<Rightarrow> string \<Rightarrow> fetch_state \<Rightarrow> fetch_state) \<Rightarrow> 'a api \<Rightarrow> cursor option \<Rightarrow> nat list
     \<Rightarrow> fetch_state \<Rightarrow> 'a page option \<times> fetch_state" where
  "fetch_page on_exc api cur [] s = (None, s)"
| "fetch_page on_exc api cur (attempt # rest) s =
     (case api_get api cur (page_jitter s) of
        (ApiRaise msg, s1) \<Rightarrow> fetch_page on_exc api cur rest (on_exc attempt msg s1)
      | (ApiReply status etext pg, s1) \<Rightarrow>
          if 500 \<le> status \<and> status < 600 then
            fetch_page on_exc api cur rest (page_sleep ((attempt + 1) * 5) s1)
          else if 400 \<le> status \<and> status < 600 then
            fetch_page on_exc api cur rest (on_exc attempt etext s1)
          else (Some pg, s1))"

definition page_retries :: nat where
  "page_retries = 5"

text \<open>The handler of \<open>get_images\<close> and \<open>get_collection_images\<close>: a back-off only when
  the text names a 5xx code and attempts are left; otherwise the error is logged and
  the next attempt follows at once.\<close>

definition images_on_exception :: "nat \<Rightarrow> string \<Rightarrow> fetch_state \<Rightarrow> fetch_state" where
  "images_on_exception attempt msg s =
     (if attempt < page_retries - 1
         \<and> (str_in ''500'' msg \<or> str_in ''502'' msg \<or> str_in ''503'' msg \<or> str_in ''504'' msg)
      then page_sleep ((attempt + 1) * 5) s
      else s)"

text \<open>The handler of \<open>get_posts\<close>.\<close>

definition posts_on_exception :: "nat \<Rightarrow> string \<Rightarrow> fetch_state \<Rightarrow> fetch_state" where
  "posts_on_exception attempt msg s = page_sleep ((attempt + 1) * 2) s"

subsection \<open>Ownership and date filters\<close>

text \<open>The owner the query names: a numeric id or a display name. An item's \<open>userId\<close>
  is a number, so it never equals a name. \<open>process_user\<close> passes a number whenever
  \<open>is_username\<close> is false, and \<open>int(user_identifier)\<close> is then the number itself; the
  fetchers are modelled for the calls in which \<open>int(user_identifier)\<close> does not raise.\<close>

datatype ident = UserId int | UserName string

definition differs :: "int \<Rightarrow> ident \<Rightarrow> bool" where
  "differs n ident = (case ident of UserId m \<Rightarrow> n \<noteq> m | UserName t \<Rightarrow> True)"

text \<open>The first guard of the loop over a page: \<open>continue\<close> on a foreign owner.\<close>

definition owner_mismatch :: "bool \<Rightarrow> ident \<Rightarrow> int option \<Rightarrow> bool" where
  "owner_mismatch is_username ident owner =
     (\<not> is_username \<and> (case owner of None \<Rightarrow> False | Some n \<Rightarrow> differs n ident))"

text \<open>
  \<open>fromisoformat\<close> stands for \<open>datetime.fromisoformat\<close> followed by the comparison with
  the bound: the instant of a text that parses to a zone-aware time, and \<open>None\<close>
  where parsing or comparing raises (both are swallowed by the source). The bound
  \<open>after_date\<close> is an instant, or \<open>None\<close> when no bound is set.
\<close>

definition replace_Z :: "string \<Rightarrow> string" where
  "replace_Z t = concat (map (\<lambda>c. if c = CHR ''Z'' then ''+00:00'' else [c]) t)"

definition older :: "(string \<Rightarrow> int option) \<Rightarrow> int option \<Rightarrow> string option \<Rightarrow> bool" where
  "older fromisoformat after_date date_str =
     (case after_date of
        None \<Rightarrow> False
      | Some bound \<Rightarrow>
          truthy date_str \<and>
          (case fromisoformat (replace_Z (fmt_str date_str)) of
             None \<Rightarrow> False
           | Some t \<Rightarrow> t < bound))"

text \<open>\<open>a or b\<close> on optional strings.\<close>

definition py_or :: "string option \<Rightarrow> string option \<Rightarrow> string option" where
  "py_or a b = (if truthy a then a else b)"

text \<open>The date optimisation after a page: stop when its last entry is older than the
  bound.\<close>

definition date_stop :: "(string \<Rightarrow> int option) \<Rightarrow> int option \<Rightarrow> string option list \<Rightarrow> bool" where
  "date_stop fromisoformat after_date dates =
     (dates \<noteq> [] \<and> older fromisoformat after_date (last dates))"

subsection \<open>get_images\<close>

definition filter_images ::
  "(string \<Rightarrow> int option) \<Rightarrow> ident \<Rightarrow> bool \<Rightarrow> int option \<Rightarrow> item list \<Rightarrow> item list" where
  "filter_images fromisoformat user_identifier is_username after_date batch =
     filter (\<lambda>img. \<not> owner_mismatch is_username user_identifier (i_userId img)
                  \<and> \<not> older fromisoformat after_date (dict_get (i_createdAt img))) batch"

partial_function (option) get_images_loop ::
  "item api \<Rightarrow> (string \<Rightarrow> int option) \<Rightarrow> ident \<Rightarrow> bool \<Rightarrow> int option \<Rightarrow> cursor option
     \<Rightarrow> item list \<Rightarrow> fetch_state \<Rightarrow> (item list \<times> fetch_state) option" where
  "get_images_loop api fromisoformat user_identifier is_username after_date cur images s =
     (case fetch_page images_on_exception api cur [0..<page_retries] s of
        (None, s1) \<Rightarrow> Some (images, s1)
      | (Some pg, s1) \<Rightarrow>
          (let images' = images
                 @ filter_images fromisoformat user_identifier is_username after_date (items pg)
           in if \<not> cursor_truthy (nextCursor pg) then Some (images', s1)
              else if date_stop fromisoformat after_date
                        (map (\<lambda>img. dict_get (i_createdAt img)) (items pg))
                then Some (images', s1)
              else get_images_loop api fromisoformat user_identifier is_username after_date
                     (nextCursor pg) images' s1))"

declare get_images_loop.simps [code]

text \<open>
  \<open>images.sort(key=lambda x: x.get('createdAt', ''), reverse=True)\<close>: a stable sort,
  descending. The key of a record is its \<open>createdAt\<close>, the empty string when the key
  is missing, and \<open>None\<close> when it is \<open>null\<close>. Sorting two or more records compares the
  key of each of them with another key, and comparing \<open>None\<close> raises \<open>TypeError\<close>,
  which \<open>get_images\<close> does not catch.
\<close>

definition created_key :: "item \<Rightarrow> string option" where
  "created_key x = (case i_createdAt x of Missing \<Rightarrow> Some [] | JNull \<Rightarrow> None | Val t \<Rightarrow> Some t)"

definition sort_newest :: "item list \<Rightarrow> py_error + item list" where
  "sort_newest xs =
     (if 2 \<le> length xs \<and> list_ex (\<lambda>x. created_key x = None) xs then Inl TypeError
      else Inr (rev (sort_key (\<lambda>x. case created_key x of None \<Rightarrow> [] | Some t \<Rightarrow> t) (rev xs))))"

text \<open>The result of \<open>get_images\<close> is the sorted list or the exception of the sort, with
  the requests made; it is \<open>None\<close> when the pagination loop does not end.\<close>

definition get_images ::
  "item api \<Rightarrow> (string \<Rightarrow> int option) \<Rightarrow> ident \<Rightarrow> bool \<Rightarrow> int option
     \<Rightarrow> ((py_error + item list) \<times> fetch_state) option" where
  "get_images api fromisoformat user_identifier is_username after_date =
     (case get_images_loop api fromisoformat user_identifier is_username after_date None []
             fetch_start of
        None \<Rightarrow> None
      | Some (images, s) \<Rightarrow> Some (sort_newest images, s))"

subsection \<open>get_posts\<close>

record post =
  p_id :: "int option"
  p_userId :: "int option"
  p_createdAt :: "string option"
  p_publishedAt :: "string option"
  p_images :: "item list"

definition post_date :: "post \<Rightarrow> string option" where
  "post_date p = py_or (p_createdAt p) (p_publishedAt p)"

text \<open>Unpacking a post: each image gets the post's id and date, and, when it has no
  key \<open>createdAt\<close>, the post's date as \<open>createdAt\<close> (\<open>null\<close> when the post has no date).
  The images' own \<open>userId\<close> is not read.\<close>

definition extract_images :: "post \<Rightarrow> item list" where
  "extract_images p =
     map (\<lambda>img. (let img1 = img\<lparr>i_postId := p_id p, i_postDate := post_date p\<rparr>
                 in if i_createdAt img1 = Missing
                    then img1\<lparr>i_createdAt := (case i_postDate img1 of None \<Rightarrow> JNull | Some d \<Rightarrow> Val d)\<rparr>
                    else img1))
         (p_images p)"

definition filter_posts ::
  "(string \<Rightarrow> int option) \<Rightarrow> ident \<Rightarrow> bool \<Rightarrow> int option \<Rightarrow> post list \<Rightarrow> post list" where
  "filter_posts fromisoformat user_identifier is_username after_date batch =
     filter (\<lambda>p. \<not> owner_mismatch is_username user_identifier (p_userId p)
                \<and> \<not> older fromisoformat after_date (post_date p)) batch"

partial_function (option) get_posts_loop ::
  "post api \<Rightarrow> (string \<Rightarrow> int option) \<Rightarrow> ident \<Rightarrow> bool \<Rightarrow> int option \<Rightarrow> cursor option
     \<Rightarrow> item list \<Rightarrow> fetch_state \<Rightarrow> (item list \<times> fetch_state) option" where
  "get_posts_loop api fromisoformat user_identifier is_username after_date cur itms s =
     (case fetch_page posts_on_exception api cur [0..<page_retries] s of
        (None, s1) \<Rightarrow> Some (itms, s1)
      | (Some pg, s1) \<Rightarrow>
          if items pg = [] then Some (itms, s1)
          else (let itms' = itms
                      @ concat (map extract_images
                          (filter_posts fromisoformat user_identifier is_username after_date
                             (items pg)))
                in if nextCursor pg = cur \<or> \<not> cursor_truthy (nextCursor pg)
                   then Some (itms', s1)
                   else if date_stop fromisoformat after_date (map post_date (items pg))
                     then Some (itms', s1)
                   else get_posts_loop api fromisoformat user_identifier is_username after_date
                          (nextCursor pg) itms' s1))"

declare get_posts_loop.simps [code]

definition get_posts ::
  "post api \<Rightarrow> (string \<Rightarrow> int option) \<Rightarrow> ident \<Rightarrow> bool \<Rightarrow> int option
     \<Rightarrow> (item list \<times> fetch_state) option" where
  "get_posts api fromisoformat user_identifier is_username after_date =
     get_posts_loop api fromisoformat user_identifier is_username after_date None [] fetch_start"

subsection \<open>get_collection_images\<close>

partial_function (option) get_collection_images_loop ::
  "item api \<Rightarrow> cursor option \<Rightarrow> item list \<Rightarrow> fetch_state \<Rightarrow> (item list \<times> fetch_state) option" where
  "get_collection_images_loop api cur images s =
     (case fetch_page images_on_exception api cur [0..<page_retries] s of
        (None, s1) \<Rightarrow> Some (images, s1)
      | (Some pg, s1) \<Rightarrow>
          if items pg = [] then Some (images, s1)
          else if nextCursor pg = cur \<or> \<not> cursor_truthy (nextCursor pg)
            then Some (images @ items pg, s1)
          else get_collection_images_loop api (nextCursor pg) (images @ items pg) s1)"

declare get_collection_images_loop.simps [code]

definition get_collection_images :: "item api \<Rightarrow> (item list \<times> fetch_state) option" where
  "get_collection_images api = get_collection_images_loop api None [] fetch_start"


section \<open>Merging the two sources\<close>

text \<open>
  \<open>all_items\<close> is a dictionary, which keeps its keys in the order of their first
  insertion; \<open>img['id']\<close> raises \<open>KeyError\<close> when the record has no id.
\<close>

fun dict_set :: "'k \<Rightarrow> 'v \<Rightarrow> ('k \<times> 'v) list \<Rightarrow> ('k \<times> 'v) list" where
  "dict_set k v [] = [(k, v)]"
| "dict_set k v ((k', v') # d) = (if k' = k then (k, v) # d else (k', v') # dict_set k v d)"

text \<open>The comprehension \<open>{img['id']: img for img in images}\<close>.\<close>

fun dict_of_images :: "item list \<Rightarrow> (int \<times> item) list \<Rightarrow> py_error + (int \<times> item) list" where
  "dict_of_images [] d = Inr d"
| "dict_of_images (img # rest) d =
     (case i_id img of
        None \<Rightarrow> Inl KeyError
      | Some k \<Rightarrow> dict_of_images rest (dict_set k img d))"

text \<open>The loop over the images that came from posts.\<close>

fun add_post_items :: "item list \<Rightarrow> (int \<times> item) list \<Rightarrow> py_error + (int \<times> item) list" where
  "add_post_items [] d = Inr d"
| "add_post_items (post_item # rest) d =
     (case i_id post_item of
        None \<Rightarrow> Inl KeyError
      | Some k \<Rightarrow>
          if map_of d k = None then add_post_items rest (dict_set k post_item d)
          else add_post_items rest d)"

definition merge_items :: "item list \<Rightarrow> item list \<Rightarrow> py_error + item list" where
  "merge_items images posts =
     (case dict_of_images images [] of
        Inl e \<Rightarrow> Inl e
      | Inr d \<Rightarrow>
          (case add_post_items posts d of
             Inl e \<Rightarrow> Inl e
           | Inr d' \<Rightarrow> Inr (map snd d')))"


section \<open>Predicates on replies and on runs of pages\<close>

text \<open>A reply that signals rate limiting: status 429, or an exception whose text
  contains \<open>429\<close>.\<close>

definition rate_limited :: "reply \<Rightarrow> bool" where
  "rate_limited r = (case r of Reply status etext body \<Rightarrow> status = 429 | Raise msg \<Rightarrow> str_in ''429'' msg)"

text \<open>A reply on which the two transfer loops take the same path: an exception, a
  429, or a 200 with a non-empty body.\<close>

definition benign :: "reply \<Rightarrow> bool" where
  "benign r =
     (case r of
        Raise msg \<Rightarrow> True
      | Reply status etext body \<Rightarrow> status = 429 \<or> (status = 200 \<and> body \<noteq> []))"

text \<open>A response with a status that is neither 200 nor 429: where the canonical URL
  is not the item's own URL, the transfer loop turns to the item's own URL on it.\<close>

definition other_status :: "reply \<Rightarrow> bool" where
  "other_status r =
     (case r of
        Raise msg \<Rightarrow> False
      | Reply status etext body \<Rightarrow> status \<noteq> 200 \<and> status \<noteq> 429)"

text \<open>A reply that fails the attempt in both transfer loops and writes nothing: an
  exception or an error status.\<close>

definition error_reply :: "reply \<Rightarrow> bool" where
  "error_reply r =
     (case r of
        Raise msg \<Rightarrow> True
      | Reply status etext body \<Rightarrow> 400 \<le> status \<and> status < 600)"

text \<open>A page reply with a 5xx status; a page reply that fails the attempt (an exception,
  or a status that \<open>raise_for_status()\<close> or the 5xx test rejects).\<close>

definition server_error :: "'a api_reply \<Rightarrow> bool" where
  "server_error r = (case r of ApiReply status etext pg \<Rightarrow> 500 \<le> status \<and> status < 600 | ApiRaise msg \<Rightarrow> False)"

definition failed_reply :: "'a api_reply \<Rightarrow> bool" where
  "failed_reply r = (case r of ApiReply status etext pg \<Rightarrow> 400 \<le> status \<and> status < 600 | ApiRaise msg \<Rightarrow> True)"

text \<open>The ownership test of the claim: the owner id is absent or is the queried id.\<close>

definition owned_by :: "ident \<Rightarrow> int option \<Rightarrow> bool" where
  "owned_by ident owner = (case owner of None \<Rightarrow> True | Some n \<Rightarrow> ident = UserId n)"


text \<open>
  A run of pages. \<open>answers api k cur pg\<close>: the \<open>k\<close>-th request, sent with the cursor
  \<open>cur\<close>, is answered with the page \<open>pg\<close> and a status that is no error.
  \<open>images_stop\<close> and \<open>posts_stop\<close>: the page is the last one the loop requests.
  \<open>image_pages api pd after k cur pgs\<close>: from the \<open>k\<close>-th request and the cursor \<open>cur\<close>
  on, the endpoint serves the pages \<open>pgs\<close>, one request each, and the loop of
  \<open>get_images\<close> follows them up to the last, where it stops; \<open>post_pages\<close> is the same
  for \<open>get_posts\<close>.
\<close>

definition answers :: "'a api \<Rightarrow> nat \<Rightarrow> cursor option \<Rightarrow> 'a page \<Rightarrow> bool" where
  "answers api k cur pg =
     (case api k (sent_cursor cur) of
        ApiReply status etext pg' \<Rightarrow> (status < 400 \<or> 600 \<le> status) \<and> pg' = pg
      | ApiRaise msg \<Rightarrow> False)"

definition images_stop :: "(string \<Rightarrow> int option) \<Rightarrow> int option \<Rightarrow> item page \<Rightarrow> bool" where
  "images_stop pd after pg =
     (\<not> cursor_truthy (nextCursor pg)
      \<or> date_stop pd after (map (\<lambda>img. dict_get (i_createdAt img)) (items pg)))"

fun image_pages ::
  "item api \<Rightarrow> (string \<Rightarrow> int option) \<Rightarrow> int option \<Rightarrow> nat \<Rightarrow> cursor option \<Rightarrow> item page list
     \<Rightarrow> bool" where
  "image_pages api pd after k cur [] = False"
| "image_pages api pd after k cur [pg] = (answers api k cur pg \<and> images_stop pd after pg)"
| "image_pages api pd after k cur (pg # nxt # rest) =
     (answers api k cur pg \<and> \<not> images_stop pd after pg
      \<and> image_pages api pd after (Suc k) (nextCursor pg) (nxt # rest))"

definition posts_stop ::
  "(string \<Rightarrow> int option) \<Rightarrow> int option \<Rightarrow> cursor option \<Rightarrow> post page \<Rightarrow> bool" where
  "posts_stop pd after cur pg =
     (items pg = [] \<or> nextCursor pg = cur \<or> \<not> cursor_truthy (nextCursor pg)
      \<or> date_stop pd after (map post_date (items pg)))"

fun post_pages ::
  "post api \<Rightarrow> (string \<Rightarrow> int option) \<Rightarrow> int option \<Rightarrow> nat \<Rightarrow> cursor option \<Rightarrow> post page list
     \<Rightarrow> bool" where
  "post_pages api pd after k cur [] = False"
| "post_pages api pd after k cur [pg] = (answers api k cur pg \<and> posts_stop pd after cur pg)"
| "post_pages api pd after k cur (pg # nxt # rest) =
     (answers api k cur pg \<and> \<not> posts_stop pd after cur pg
      \<and> post_pages api pd after (Suc k) (nextCursor pg) (nxt # rest))"


section \<open>Well-formed dictionaries\<close>

text \<open>A dictionary as the merge builds it: no key occurs twice, and each key maps to a
  record with that id.\<close>

definition keyed :: "(int \<times> item) list \<Rightarrow> bool" where
  "keyed d = (distinct (map fst d) \<and> list_all (\<lambda>kv. i_id (snd kv) = Some (fst kv)) d)"

text \<open>An exception text that names one of the codes 500, 502, 503, 504; a page reply
  that is an exception whose text satisfies \<open>P\<close>.\<close>

definition names_5xx :: "string \<Rightarrow> bool" where
  "names_5xx msg = (str_in ''500'' msg \<or> str_in ''502'' msg \<or> str_in ''503'' msg \<or> str_in ''504'' msg)"

definition raises_with :: "(string \<Rightarrow> bool) \<Rightarrow> 'a api_reply \<Rightarrow> bool" where
  "raises_with P r = (case r of ApiReply status etext pg \<Rightarrow> False | ApiRaise msg \<Rightarrow> P msg)"


section \<open>Example inputs\<close>

text \<open>A video whose URL ends in \<open>.webm\<close> and that carries no MIME type.\<close>

definition video_webm :: item where
  "video_webm = \<lparr>i_id = Some 7, i_url = Some ''https://h/clips/a.webm'', i_name = None,
     i_type = Some ''video'', i_mimeType = None, i_userId = None, i_createdAt = Missing,
     i_user = NoUser, i_postId = None, i_postDate = None\<rparr>"

text \<open>A directory with two files left for id 42 under old names, the first one listed
  being empty, and one file of another id.\<close>

definition stale_dir :: world where
  "stale_dir = \<lparr>files = [''e_42.png'' \<mapsto> [], ''old_42.png'' \<mapsto> ''XYZ'', ''b_7.png'' \<mapsto> ''Q''],
                 calls = 0, trace = []\<rparr>"

definition stale_ls :: "string list" where
  "stale_ls = [''e_42.png'', ''b_7.png'', ''old_42.png'']"

text \<open>An image with a full URL and nothing else but its id; the same image with its
  creator's name; an empty directory; a server that answers every request with status
  200 and an empty body, and one that answers with a one-byte body.\<close>

definition png_item :: item where
  "png_item = \<lparr>i_id = Some 1, i_url = Some ''https://h/a.png'', i_name = None,
     i_type = None, i_mimeType = None, i_userId = None, i_createdAt = Missing,
     i_user = NoUser, i_postId = None, i_postDate = None\<rparr>"

definition bob_item :: item where
  "bob_item = png_item\<lparr>i_user := UserObj (Some ''bob'')\<rparr>"

definition empty_dir :: world where
  "empty_dir = \<lparr>files = Map.empty, calls = 0, trace = []\<rparr>"

definition empty_body :: net where
  "empty_body = (\<lambda>k u. Reply 200 [] [])"

definition one_byte :: net where
  "one_byte = (\<lambda>k u. Reply 200 [] ''X'')"

definition always_429 :: net where
  "always_429 = (\<lambda>k u. if even k then Reply 429 [] [] else Raise ''429 Too Many Requests'')"

text \<open>The image with id 42 whose file is to be called \<open>new_42.png\<close>, and the listing
  of \<open>stale_dir\<close> after a first pass has renamed \<open>old_42.png\<close>.\<close>

definition new_item :: item where
  "new_item = \<lparr>i_id = Some 42, i_url = Some ''https://h/a.png'', i_name = Some ''new'',
     i_type = None, i_mimeType = None, i_userId = None, i_createdAt = Missing,
     i_user = NoUser, i_postId = None, i_postDate = None\<rparr>"

definition second_ls :: "string list" where
  "second_ls = [''e_42.png'', ''b_7.png'', ''new_42.png'']"

text \<open>An endpoint that answers every request with the same page and the same
  \<open>nextCursor\<close>, for images and for posts; an endpoint whose every request times out;
  an endpoint that serves one page and then answers 503; a date parser that rejects
  every text.\<close>

definition stuck_api :: "item api" where
  "stuck_api = (\<lambda>k c. ApiReply 200 [] (Page [png_item] (Some (CStr ''c''))))"

definition one_post :: post where
  "one_post = \<lparr>p_id = Some 5, p_userId = None, p_createdAt = None, p_publishedAt = None,
                p_images = [png_item]\<rparr>"

definition stuck_posts :: "post api" where
  "stuck_posts = (\<lambda>k c. ApiReply 200 [] (Page [one_post] (Some (CStr ''c''))))"

definition timeout_api :: "'a api" where
  "timeout_api = (\<lambda>k c. ApiRaise ''Read timed out'')"

definition flaky_api :: "item api" where
  "flaky_api = (\<lambda>k c. if k = 0 then ApiReply 200 [] (Page [png_item] (Some (CStr ''c'')))
                       else ApiReply 503 [] (Page [] None))"

definition no_dates :: "string \<Rightarrow> int option" where
  "no_dates = (\<lambda>t. None)"

text \<open>Two records with the same id and different names, and an image that carries a
  foreign owner id.\<close>

definition first_copy :: item where
  "first_copy = png_item\<lparr>i_name := Some ''first''\<rparr>"

definition second_copy :: item where
  "second_copy = png_item\<lparr>i_name := Some ''second''\<rparr>"

definition foreign_item :: item where
  "foreign_item = png_item\<lparr>i_id := Some 2, i_userId := Some 99\<rparr>"

text \<open>
  A date parser that knows two instants, written as years; an image of the owner 1
  from 2024 and one from 2020, and an image without owner id from 2020; an endpoint
  that serves two pages of images, one that answers 503 twice before it serves a
  page, and one that serves the image without owner id.
\<close>

definition two_dates :: "string \<Rightarrow> int option" where
  "two_dates = (\<lambda>t. if t = ''2024-05-01T00:00:00+00:00'' then Some 2024
                     else if t = ''2020-05-01T00:00:00+00:00'' then Some 2020
                     else None)"

definition own_item :: item where
  "own_item = png_item\<lparr>i_id := Some 3, i_userId := Some 1, i_createdAt := Val ''2024-05-01T00:00:00Z''\<rparr>"

definition old_item :: item where
  "old_item = png_item\<lparr>i_id := Some 4, i_userId := Some 1, i_createdAt := Val ''2020-05-01T00:00:00Z''\<rparr>"

definition orphan_old :: item where
  "orphan_old = png_item\<lparr>i_id := Some 6, i_createdAt := Val ''2020-05-01T00:00:00Z''\<rparr>"

definition two_pages :: "item api" where
  "two_pages = (\<lambda>k c. if k = 0
                       then ApiReply 200 [] (Page [png_item, foreign_item, own_item] (Some (CStr ''c'')))
                       else ApiReply 200 [] (Page [old_item] None))"

definition slow_api :: "item api" where
  "slow_api = (\<lambda>k c. if k < 2 then ApiReply 503 [] (Page [] None)
                      else ApiReply 200 [] (Page [png_item, foreign_item] None))"

definition orphan_api :: "item api" where
  "orphan_api = (\<lambda>k c. ApiReply 200 [] (Page [orphan_old] None))"

text \<open>
  A post without owner id that holds the image of the owner 99, a post of the owner
  99, and a post of the owner 1 from 2020; an endpoint that serves the three posts on
  one page, and one that serves the first of them.
\<close>

definition kept_post :: post where
  "kept_post = \<lparr>p_id = Some 5, p_userId = None, p_createdAt = None, p_publishedAt = None,
                 p_images = [foreign_item]\<rparr>"

definition foreign_post :: post where
  "foreign_post = \<lparr>p_id = Some 6, p_userId = Some 99, p_createdAt = None, p_publishedAt = None,
                    p_images = [png_item]\<rparr>"

definition old_post :: post where
  "old_post = \<lparr>p_id = Some 7, p_userId = Some 1, p_createdAt = Some ''2020-05-01T00:00:00Z'',
                p_publishedAt = None, p_images = [own_item]\<rparr>"

definition post_api :: "post api" where
  "post_api = (\<lambda>k c. ApiReply 200 [] (Page [kept_post, foreign_post, old_post] None))"

definition foreign_post_api :: "post api" where
  "foreign_post_api = (\<lambda>k c. ApiReply 200 [] (Page [kept_post] None))"

text \<open>The state of \<open>get_images\<close> after its first page request.\<close>

definition after_first_page :: fetch_state where
  "after_first_page = \<lparr>f_calls = 1, f_trace = [PageJitter, PageGet None]\<rparr>"

text \<open>A video that declares its MIME type but whose URL ends in \<open>.png\<close>; an image given
  by a bare storage token; a server that answers 404 once and then serves the file.\<close>

definition mime_item :: item where
  "mime_item = png_item\<lparr>i_mimeType := Some ''video/mp4''\<rparr>"

definition token_item :: item where
  "token_item = png_item\<lparr>i_url := Some ''abcd''\<rparr>"

definition not_found_once :: net where
  "not_found_once = (\<lambda>k u. if k = 0 then Reply 404 ''404 Client Error'' [] else Reply 200 [] ''X'')"

text \<open>
  An image without URL; a storage token whose name is made of punctuation; an image
  whose \<open>user\<close> is \<open>null\<close>; a storage token with a name, and one whose name changes
  under sanitising; a directory that holds an empty file of id 1 and a file
  of another id; a server that answers 429, then times out, then serves the file; a
  server that answers every request with 404, one that answers 204 with a body, an
  image whose URL names a width and a server that does not have its original size,
  and a server that serves a file only under the URL that carries the unsanitised
  name.
\<close>

definition no_url_item :: item where
  "no_url_item = png_item\<lparr>i_url := None\<rparr>"

definition bang_token :: item where
  "bang_token = png_item\<lparr>i_url := Some ''abcd'', i_name := Some ''!!!''\<rparr>"

definition null_user_item :: item where
  "null_user_item = png_item\<lparr>i_user := NullUser\<rparr>"

definition named_token :: item where
  "named_token = png_item\<lparr>i_url := Some ''abcd'', i_name := Some ''pic''\<rparr>"

definition dotted_token :: item where
  "dotted_token = png_item\<lparr>i_url := Some ''abcd'', i_name := Some ''a.png''\<rparr>"

definition busy_dir :: world where
  "busy_dir = \<lparr>files = [''x_1.png'' \<mapsto> [], ''b_7.png'' \<mapsto> ''Q''], calls = 0, trace = []\<rparr>"

definition busy_ls :: "string list" where
  "busy_ls = [''x_1.png'', ''b_7.png'']"

definition busy_then_ok :: net where
  "busy_then_ok = (\<lambda>k u. if k = 0 then Reply 429 [] []
                          else if k = 1 then Raise ''Read timed out''
                          else Reply 200 [] ''X'')"

definition always_404 :: net where
  "always_404 = (\<lambda>k u. Reply 404 ''404 Client Error'' [])"

definition no_content :: net where
  "no_content = (\<lambda>k u. Reply 204 [] ''X'')"

definition wide_item :: item where
  "wide_item = png_item\<lparr>i_url := Some ''https://h/width=450/a.png''\<rparr>"

definition original_missing :: net where
  "original_missing = (\<lambda>k u. if u = ''https://h/original=true/a.png''
                              then Reply 404 ''404 Client Error'' []
                              else Reply 200 [] ''X'')"

definition only_named_url :: net where
  "only_named_url = (\<lambda>k u. if u = base_host @ ''abcd/original=true/a.png'' then Reply 200 [] ''X''
                            else Reply 404 ''404 Client Error'' [])"

text \<open>A directory that holds the target of \<open>new_item\<close> and an older file of the same id,
  and one that holds the target only; an endpoint whose every request fails with a
  gateway error raised as an exception.\<close>

definition dup_dir :: world where
  "dup_dir = \<lparr>files = [''old_42.png'' \<mapsto> ''OLD'', ''new_42.png'' \<mapsto> ''XYZ''], calls = 0, trace = []\<rparr>"

definition dup_ls :: "string list" where
  "dup_ls = [''old_42.png'', ''new_42.png'']"

definition clean_dir :: world where
  "clean_dir = \<lparr>files = [''b_7.png'' \<mapsto> ''Q'', ''new_42.png'' \<mapsto> ''XYZ''], calls = 0, trace = []\<rparr>"

definition clean_ls :: "string list" where
  "clean_ls = [''b_7.png'', ''new_42.png'']"

definition gateway_api :: "'a api" where
  "gateway_api = (\<lambda>k c. ApiRaise ''502 Server Error: Bad Gateway'')"


section \<open>Properties: file names\<close>

lemma split_on_nonempty: "split_on d s \<noteq> []"
  by (induction s) (auto split: list.splits)

lemma endswith_append: "endswith (xs @ p) p"
  by (simp add: endswith_def)

lemma strip_keeps_suffix:
  assumes "p \<noteq> []" "\<not> isspace (hd p)" "\<not> isspace (last p)"
  shows "\<exists>ys. strip (xs @ p) = ys @ p"
proof -
  have a: "dropWhile isspace (xs @ p) = dropWhile isspace xs @ p"
    using assms by (induction xs) (auto simp: neq_Nil_conv)
  have "dropWhile isspace (rev p @ zs) = rev p @ zs" for zs
    using assms by (cases p rule: rev_cases) auto
  then show ?thesis unfolding strip_def a by (intro exI[of _ "dropWhile isspace xs"]) simp
qed

lemma mp4_filename:
  "endswith (cap_filename (sanitize_filename (pre @ ''.mp4'')) it ''mp4'') ''.mp4''"
proof -
  obtain ys where "sanitize_filename (pre @ ''.mp4'') = ys @ ''.mp4''"
    using strip_keeps_suffix [of "''.mp4''"
        "filter (\<lambda>c. isalpha c \<or> isdigit c \<or> c = CHR '' '' \<or> c = CHR ''-'' \<or> c = CHR ''_''
                      \<or> c = CHR ''.'') pre"]
    by (auto simp: sanitize_filename_def isspace_def isalpha_def isdigit_def)
  then show ?thesis
    by (simp add: cap_filename_def endswith_def)
qed

text \<open>
  C9. An item of type \<open>video\<close> gets the extension \<open>mp4\<close> in both downloaders, whatever
  the URL ends in, and so does the name of its file.
\<close>

theorem video_kind_resolves_mp4:
  "i_type it = Some ''video'' \<Longrightarrow>
     resolve_ext_user u it = ''mp4'' \<and> resolve_ext_coll u it = ''mp4''
     \<and> endswith (filename_user u it) ''.mp4'' \<and> endswith (filename_coll u it) ''.mp4''"
proof -
  assume v: "i_type it = Some ''video''"
  have eu: "resolve_ext_user u it = ''mp4''" and ec: "resolve_ext_coll u it = ''mp4''"
    using v by (simp_all add: resolve_ext_user_def resolve_ext_coll_def Let_def)
  have fu: "endswith (filename_user u it) ''.mp4''"
    using mp4_filename [of "name_user it @ ''_'' @ fmt_id (i_id it)" it]
    by (simp add: filename_user_def eu Let_def)
  have fc: "endswith (filename_coll u it) ''.mp4''"
    using mp4_filename [of "fmt_str (username_coll it) @ ''_'' @ fmt_str (name_coll u it) @ ''_''
                              @ fmt_id (i_id it)" it]
      mp4_filename [of "fmt_str (name_coll u it) @ ''_'' @ fmt_id (i_id it)" it]
    by (simp add: filename_coll_def ec Let_def)
  from eu ec fu fc show ?thesis by simp
qed

theorem video_kind_resolves_mp4_witness:
  "i_type video_webm = Some ''video'' \<and> i_mimeType video_webm = None
   \<and> endswith ''https://h/clips/a.webm'' ''.webm''
   \<and> resolve_ext_user ''https://h/clips/a.webm'' video_webm = ''mp4''
   \<and> resolve_ext_coll ''https://h/clips/a.webm'' video_webm = ''mp4''
   \<and> endswith (filename_user ''https://h/clips/a.webm'' video_webm) ''.mp4''
   \<and> endswith (filename_coll ''https://h/clips/a.webm'' video_webm) ''.mp4''"
  using video_kind_resolves_mp4 [of video_webm "''https://h/clips/a.webm''"]
  by (simp add: video_webm_def endswith_def)


section \<open>Properties: reconciliation\<close>

lemma files_remove_file [simp]: "files (remove_file p w) = (files w)(p := None)"
  and calls_remove_file [simp]: "calls (remove_file p w) = calls w"
  and trace_remove_file [simp]: "trace (remove_file p w) = trace w @ [Removed p]"
  by (simp_all add: remove_file_def)

lemma files_rename_file [simp]:
    "files (rename_file a b w) = ((files w)(a := None))(b := files w a)"
  and calls_rename_file [simp]: "calls (rename_file a b w) = calls w"
  and trace_rename_file [simp]: "trace (rename_file a b w) = trace w @ [Renamed a b]"
  by (simp_all add: rename_file_def)

lemma requests_append [simp]: "requests (s @ t) = requests s @ requests t"
  by (simp add: requests_def)

lemma sleeps_append [simp]: "sleeps (s @ t) = sleeps s @ sleeps t"
  by (simp add: sleeps_def)

lemma renames_append [simp]: "renames (s @ t) = renames s @ renames t"
  by (simp add: renames_def)

lemma trace_views_single [simp]:
  "requests [Jitter] = []" "requests [Get u] = [u]" "requests [Sleep n] = []"
  "requests [Removed p] = []" "requests [Renamed a b] = []" "requests [Wrote p] = []"
  "sleeps [Jitter] = []" "sleeps [Get u] = []" "sleeps [Sleep n] = [n]"
  "sleeps [Removed p] = []" "sleeps [Renamed a b] = []" "sleeps [Wrote p] = []"
  "renames [Jitter] = []" "renames [Get u] = []" "renames [Sleep n] = []"
  "renames [Removed p] = []" "renames [Renamed a b] = [(a, b)]" "renames [Wrote p] = []"
  by (simp_all add: requests_def sleeps_def renames_def)

lemma reconcile_coll_eq: "reconcile_coll fp ds w = reconcile_user fp ds w"
  by (induction ds arbitrary: w) (auto split: option.splits)

lemma reconcile_calls: "calls (reconcile_user fp ds w) = calls w"
  by (induction ds arbitrary: w) (auto split: option.splits)

lemma reconcile_requests: "requests (trace (reconcile_user fp ds w)) = requests (trace w)"
  by (induction ds arbitrary: w) (auto split: option.splits)

lemma reconcile_sleeps: "sleeps (trace (reconcile_user fp ds w)) = sleeps (trace w)"
  by (induction ds arbitrary: w) (auto split: option.splits)

lemma valid_upd_other: "p \<noteq> q \<Longrightarrow> valid (fs(p := x)) q = valid fs q"
  by (simp add: valid_def)

lemma reconcile_valid_target:
  assumes "valid (files w) fp"
  shows "files (reconcile_user fp ds w) = (\<lambda>n. if n \<in> set ds \<and> n \<noteq> fp then None else files w n)
         \<and> renames (trace (reconcile_user fp ds w)) = renames (trace w)"
  using assms
proof (induction ds arbitrary: w)
  case Nil
  then show ?case by simp
next
  case (Cons dupe rest)
  show ?case
  proof (cases "dupe = fp")
    case True
    with Cons show ?thesis by (auto simp: fun_eq_iff)
  next
    case False
    define w1 where "w1 = (if files w dupe \<noteq> None then remove_file dupe w else w)"
    have v1: "valid (files w1) fp"
      using Cons.prems False by (simp add: w1_def valid_upd_other)
    have f1: "files w1 = (files w)(dupe := None)"
      by (auto simp: w1_def fun_eq_iff)
    have r1: "renames (trace w1) = renames (trace w)"
      by (simp add: w1_def)
    have step: "reconcile_user fp (dupe # rest) w = reconcile_user fp rest w1"
      using False Cons.prems by (simp add: w1_def)
    from Cons.IH [OF v1] show ?thesis
      unfolding step using False by (auto simp: f1 r1 fun_eq_iff)
  qed
qed

lemma reconcile_frame:
  "n \<noteq> fp \<Longrightarrow>
     (files (reconcile_user fp ds w) n = None \<or> files (reconcile_user fp ds w) n = files w n)
     \<and> (n \<notin> set ds \<longrightarrow> files (reconcile_user fp ds w) n = files w n)"
proof (induction ds arbitrary: w)
  case Nil
  then show ?case by simp
next
  case (Cons dupe rest)
  note IH = Cons.IH [OF Cons.prems]
  have same: ?case if "reconcile_user fp (dupe # rest) w = reconcile_user fp rest w"
    using IH [of w] that by auto
  have moved: ?case
    if "reconcile_user fp (dupe # rest) w = reconcile_user fp rest w1"
      and "files w1 n = (if n = dupe then None else files w n)" for w1
    using IH [of w1] that by (cases "n = dupe") auto
  show ?case
  proof (cases "dupe = fp")
    case True
    then show ?thesis by (intro same) simp
  next
    case False
    show ?thesis
    proof (cases "valid (files w) fp")
      case True
      show ?thesis
      proof (cases "files w dupe")
        case None
        with True False show ?thesis by (intro same) simp
      next
        case (Some b)
        with True False show ?thesis
          by (intro moved [of "remove_file dupe w"]) simp_all
      qed
    next
      case nv: False
      show ?thesis
      proof (cases "files w dupe")
        case None
        with nv False show ?thesis by simp
      next
        case (Some b)
        show ?thesis
        proof (cases "b = []")
          case True
          with Some nv False show ?thesis by (intro same) simp
        next
          case ne: False
          with Some nv False Cons.prems show ?thesis
            by (intro moved [of "rename_file dupe fp w"]) simp_all
        qed
      qed
    qed
  qed
qed

lemma reconcile_invalid_target:
  assumes "\<not> valid (files w) fp" and "set ds \<subseteq> dom (files w)"
  shows "(case find (\<lambda>d. d \<noteq> fp \<and> valid (files w) d) ds of
            None \<Rightarrow> reconcile_user fp ds w = w
          | Some d \<Rightarrow>
              files (reconcile_user fp ds w) fp = files w d
              \<and> files (reconcile_user fp ds w) d = None
              \<and> renames (trace (reconcile_user fp ds w)) = renames (trace w) @ [(d, fp)])
         \<and> (\<forall>n \<in> set ds. n \<noteq> fp \<longrightarrow> \<not> valid (files (reconcile_user fp ds w)) n)"
  using assms
proof (induction ds arbitrary: w)
  case Nil
  then show ?case by simp
next
  case (Cons dupe rest)
  have sub: "set rest \<subseteq> dom (files w)" using Cons.prems by simp
  note IH = Cons.IH [OF Cons.prems(1) sub]
  show ?case
  proof (cases "dupe = fp")
    case True
    then show ?thesis using IH by (simp split: option.splits)
  next
    case False
    from Cons.prems obtain b where b: "files w dupe = Some b" by auto
    show ?thesis
    proof (cases "b = []")
      case True
      have inv: "\<not> valid (files w) dupe" using b True by (simp add: valid_def)
      have "\<not> valid (files (reconcile_user fp rest w)) dupe"
        using reconcile_frame [OF False, of rest w] b True by (auto simp: valid_def)
      then show ?thesis
        using IH False b True inv Cons.prems(1) by (simp split: option.splits)
    next
      case ne: False
      define w1 where "w1 = rename_file dupe fp w"
      have v1: "valid (files w1) fp" using b ne by (simp add: w1_def valid_def)
      have step: "reconcile_user fp (dupe # rest) w = reconcile_user fp rest w1"
        using False Cons.prems(1) b ne by (simp add: w1_def)
      have fnd: "find (\<lambda>d. d \<noteq> fp \<and> valid (files w) d) (dupe # rest) = Some dupe"
        using False b ne by (simp add: valid_def)
      note R = reconcile_valid_target [OF v1, of rest]
      have a: "files (reconcile_user fp rest w1) fp = files w dupe"
        using R by (simp add: w1_def)
      have c: "files (reconcile_user fp rest w1) dupe = None"
        using R False by (simp add: w1_def)
      have d: "renames (trace (reconcile_user fp rest w1)) = renames (trace w) @ [(dupe, fp)]"
        using R by (simp add: w1_def)
      have e: "\<forall>n \<in> set (dupe # rest). n \<noteq> fp \<longrightarrow> \<not> valid (files (reconcile_user fp rest w1)) n"
        using R False by (auto simp: w1_def valid_def)
      show ?thesis unfolding step fnd using a c d e by simp
    qed
  qed
qed

text \<open>
  C3. One reconciliation pass for the id \<open>i\<close> and the target \<open>fp\<close>, over a listing of
  the directory. If the target is valid at the start, every other file matching
  \<open>*_<i>.*\<close> is deleted and nothing is renamed. If it is not, the first valid match
  in listing order is renamed to the target with its content, and that is the only
  rename. Afterwards no valid file matching the pattern is left but the target, and
  files that do not match are untouched. Both downloaders do the same.
\<close>

theorem reconciliation_pass:
  assumes "set ls = dom (files w)"
  shows "(let w' = reconcile_user fp (filter (glob_match i) ls) w in
           (valid (files w) fp \<longrightarrow>
              (\<forall>n. files w' n = (if glob_match i n \<and> n \<noteq> fp then None else files w n))
              \<and> renames (trace w') = renames (trace w))
         \<and> (\<not> valid (files w) fp \<longrightarrow>
              (case find (\<lambda>d. d \<noteq> fp \<and> valid (files w) d) (filter (glob_match i) ls) of
                 None \<Rightarrow> w' = w
               | Some d \<Rightarrow> files w' fp = files w d \<and> files w' d = None
                           \<and> renames (trace w') = renames (trace w) @ [(d, fp)]))
         \<and> length (renames (trace w')) \<le> length (renames (trace w)) + 1
         \<and> (\<forall>n. glob_match i n \<and> valid (files w') n \<longrightarrow> n = fp)
         \<and> (\<forall>n. \<not> glob_match i n \<and> n \<noteq> fp \<longrightarrow> files w' n = files w n)
         \<and> reconcile_coll fp (filter (glob_match i) ls) w = w')"
proof -
  define ds where "ds = filter (glob_match i) ls"
  define w' where "w' = reconcile_user fp ds w"
  have sub: "set ds \<subseteq> dom (files w)" using assms by (auto simp: ds_def)
  have gone: "files w n = None" if "n \<notin> set ds" "glob_match i n" for n
    using that assms by (auto simp: ds_def)
  have A: "(\<forall>n. files w' n = (if glob_match i n \<and> n \<noteq> fp then None else files w n))
           \<and> renames (trace w') = renames (trace w)" if v: "valid (files w) fp"
  proof -
    from reconcile_valid_target [OF v, of ds]
    have f: "files w' = (\<lambda>n. if n \<in> set ds \<and> n \<noteq> fp then None else files w n)"
      and r: "renames (trace w') = renames (trace w)" by (simp_all add: w'_def)
    have "files w' n = (if glob_match i n \<and> n \<noteq> fp then None else files w n)" for n
      using gone [of n] by (auto simp: f ds_def)
    with r show ?thesis by simp
  qed
  have B: "(case find (\<lambda>d. d \<noteq> fp \<and> valid (files w) d) ds of
              None \<Rightarrow> w' = w
            | Some d \<Rightarrow> files w' fp = files w d \<and> files w' d = None
                        \<and> renames (trace w') = renames (trace w) @ [(d, fp)])
           \<and> (\<forall>n \<in> set ds. n \<noteq> fp \<longrightarrow> \<not> valid (files w') n)" if nv: "\<not> valid (files w) fp"
    unfolding w'_def by (rule reconcile_invalid_target [OF nv sub])
  have C: "length (renames (trace w')) \<le> length (renames (trace w)) + 1"
  proof (cases "valid (files w) fp")
    case True
    with A show ?thesis by simp
  next
    case False
    with B show ?thesis by (auto split: option.splits)
  qed
  have D: "n = fp" if "glob_match i n" "valid (files w') n" for n
  proof (rule ccontr)
    assume ne: "n \<noteq> fp"
    show False
    proof (cases "n \<in> set ds")
      case True
      show ?thesis
      proof (cases "valid (files w) fp")
        case v: True
        with A that ne show ?thesis by (simp add: valid_def)
      next
        case False
        with B True ne that show ?thesis by blast
      qed
    next
      case False
      with reconcile_frame [OF ne, of ds w] gone [OF False that(1)] that(2)
      show ?thesis by (simp add: w'_def valid_def)
    qed
  qed
  have E: "files w' n = files w n" if "\<not> glob_match i n" "n \<noteq> fp" for n
    using reconcile_frame [OF that(2), of ds w] that(1) by (simp add: w'_def ds_def)
  have F: "reconcile_coll fp ds w = w'" by (simp add: reconcile_coll_eq w'_def)
  show ?thesis
    unfolding Let_def ds_def [symmetric] w'_def [symmetric]
    using A B C D E F by blast
qed

lemma stale_glob:
  "filter (glob_match (Some 42)) stale_ls = [''e_42.png'', ''old_42.png'']"
  by (simp add: stale_ls_def glob_match_def fmt_id_def str_int_def str_nat.simps digit_char_def
      startswith_def)

lemma dup_glob:
  "filter (glob_match (Some 42)) dup_ls = [''old_42.png'', ''new_42.png'']"
  "filter (glob_match (Some 42)) clean_ls = [''new_42.png'']"
  by (simp_all add: dup_ls_def clean_ls_def glob_match_def fmt_id_def str_int_def str_nat.simps
      digit_char_def startswith_def)

theorem reconciliation_pass_witness:
  "(set stale_ls = dom (files stale_dir)
   \<and> \<not> valid (files stale_dir) ''new_42.png''
   \<and> files (reconcile_user ''new_42.png'' (filter (glob_match (Some 42)) stale_ls) stale_dir)
        ''new_42.png'' = Some ''XYZ''
   \<and> files (reconcile_user ''new_42.png'' (filter (glob_match (Some 42)) stale_ls) stale_dir)
        ''old_42.png'' = None
   \<and> renames (trace (reconcile_user ''new_42.png'' (filter (glob_match (Some 42)) stale_ls) stale_dir))
        = [(''old_42.png'', ''new_42.png'')]
   \<and> \<not> valid (files (reconcile_user ''new_42.png'' (filter (glob_match (Some 42)) stale_ls) stale_dir))
        ''e_42.png''
   \<and> files (reconcile_user ''new_42.png'' (filter (glob_match (Some 42)) stale_ls) stale_dir)
        ''b_7.png'' = Some ''Q'')
   \<and> (set dup_ls = dom (files dup_dir) \<and> valid (files dup_dir) ''new_42.png''
   \<and> files (reconcile_user ''new_42.png'' (filter (glob_match (Some 42)) dup_ls) dup_dir)
        ''old_42.png'' = None
   \<and> files (reconcile_user ''new_42.png'' (filter (glob_match (Some 42)) dup_ls) dup_dir)
        ''new_42.png'' = Some ''XYZ''
   \<and> renames (trace (reconcile_user ''new_42.png'' (filter (glob_match (Some 42)) dup_ls) dup_dir)) = [])"
proof -
  have first: "set stale_ls = dom (files stale_dir)
   \<and> \<not> valid (files stale_dir) ''new_42.png''
   \<and> files (reconcile_user ''new_42.png'' (filter (glob_match (Some 42)) stale_ls) stale_dir)
        ''new_42.png'' = Some ''XYZ''
   \<and> files (reconcile_user ''new_42.png'' (filter (glob_match (Some 42)) stale_ls) stale_dir)
        ''old_42.png'' = None
   \<and> renames (trace (reconcile_user ''new_42.png'' (filter (glob_match (Some 42)) stale_ls) stale_dir))
        = [(''old_42.png'', ''new_42.png'')]
   \<and> \<not> valid (files (reconcile_user ''new_42.png'' (filter (glob_match (Some 42)) stale_ls) stale_dir))
        ''e_42.png''
   \<and> files (reconcile_user ''new_42.png'' (filter (glob_match (Some 42)) stale_ls) stale_dir)
        ''b_7.png'' = Some ''Q''"
  proof -
    have ls: "set stale_ls = dom (files stale_dir)"
      by (auto simp: stale_ls_def stale_dir_def)
    have nv: "\<not> valid (files stale_dir) ''new_42.png''"
      by (simp add: stale_dir_def valid_def)
    have fnd: "find (\<lambda>d. d \<noteq> ''new_42.png'' \<and> valid (files stale_dir) d)
                 (filter (glob_match (Some 42)) stale_ls) = Some ''old_42.png''"
      by (simp add: stale_glob stale_dir_def valid_def)
    have g1: "glob_match (Some 42) ''e_42.png''" and g2: "\<not> glob_match (Some 42) ''b_7.png''"
      by (simp_all add: glob_match_def fmt_id_def str_int_def str_nat.simps digit_char_def
          startswith_def)
    have tr: "renames (trace stale_dir) = []" and old: "files stale_dir ''old_42.png'' = Some ''XYZ''"
      and b7: "files stale_dir ''b_7.png'' = Some ''Q''"
      by (simp_all add: stale_dir_def renames_def)
    from reconciliation_pass [OF ls, of "''new_42.png''" "Some 42"] nv fnd g1 g2 tr old b7 ls
    show ?thesis by (auto simp: Let_def)
  qed
  have second: "set dup_ls = dom (files dup_dir) \<and> valid (files dup_dir) ''new_42.png''
   \<and> files (reconcile_user ''new_42.png'' (filter (glob_match (Some 42)) dup_ls) dup_dir)
        ''old_42.png'' = None
   \<and> files (reconcile_user ''new_42.png'' (filter (glob_match (Some 42)) dup_ls) dup_dir)
        ''new_42.png'' = Some ''XYZ''
   \<and> renames (trace (reconcile_user ''new_42.png'' (filter (glob_match (Some 42)) dup_ls) dup_dir)) = []"
  proof -
    have ls: "set dup_ls = dom (files dup_dir)" by (auto simp: dup_ls_def dup_dir_def)
    have v: "valid (files dup_dir) ''new_42.png''" by (simp add: dup_dir_def valid_def)
    have g: "glob_match (Some 42) ''old_42.png''" "glob_match (Some 42) ''new_42.png''"
      by (simp_all add: glob_match_def fmt_id_def str_int_def str_nat.simps digit_char_def
          startswith_def)
    have t: "renames (trace dup_dir) = []" "files dup_dir ''new_42.png'' = Some ''XYZ''"
      by (simp_all add: dup_dir_def renames_def)
    from reconciliation_pass [OF ls, of "''new_42.png''" "Some 42"] v g t ls
    show ?thesis by (auto simp: Let_def)
  qed
  from first second show ?thesis by (rule conjI)
qed


section \<open>Properties: the download worker\<close>

lemma world_steps [simp]:
  "files (jitter w) = files w" "calls (jitter w) = calls w" "trace (jitter w) = trace w @ [Jitter]"
  "files (sleep n w) = files w" "calls (sleep n w) = calls w" "trace (sleep n w) = trace w @ [Sleep n]"
  "files (write_file p b w) = (files w)(p \<mapsto> b)" "calls (write_file p b w) = calls w"
  "trace (write_file p b w) = trace w @ [Wrote p]"
  by (simp_all add: jitter_def sleep_def write_file_def)

lemma http_get_simps [simp]:
  "fst (http_get nt u w) = nt (calls w) u"
  "files (snd (http_get nt u w)) = files w"
  "calls (snd (http_get nt u w)) = calls w + 1"
  "trace (snd (http_get nt u w)) = trace w @ [Get u]"
  by (simp_all add: http_get_def)

lemma attempt_user_rate_limited:
  assumes "rate_limited (nt (calls w) ou)"
  shows "attempt_user nt u ou fp a w
         = (Continue, w\<lparr>calls := calls w + 1,
                         trace := trace w @ [Jitter, Get ou, Sleep ((a + 1) * 10)]\<rparr>)"
  using assms
  by (cases "nt (calls w) ou")
     (simp_all add: attempt_user_def http_get_def jitter_def sleep_def on_exception_def
        rate_limited_def)

lemma attempt_coll_rate_limited:
  assumes "rate_limited (nt (calls w) ou)"
  shows "attempt_coll nt u ou fp a w
         = (Continue, w\<lparr>calls := calls w + 1,
                         trace := trace w @ [Jitter, Get ou, Sleep ((a + 1) * 10)]\<rparr>)"
  using assms
  by (cases "nt (calls w) ou")
     (simp_all add: attempt_coll_def http_get_def jitter_def sleep_def on_exception_def
        rate_limited_def)

lemma for_attempts_all_continue:
  assumes "\<And>a w. body a w = (Continue, w\<lparr>calls := calls w + 1, trace := trace w @ ev a\<rparr>)"
  shows "for_attempts body as w
         = (False, w\<lparr>calls := calls w + length as, trace := trace w @ concat (map ev as)\<rparr>)"
proof (induction as arbitrary: w)
  case Nil
  show ?case by simp
next
  case (Cons a as)
  have "for_attempts body (a # as) w
        = for_attempts body as (w\<lparr>calls := calls w + 1, trace := trace w @ ev a\<rparr>)"
    by (simp add: assms [of a w])
  then show ?case by (simp add: Cons.IH)
qed

lemma backoff_views:
  "requests (concat (map (\<lambda>a. [Jitter, Get ou, Sleep (f a)]) as)) = replicate (length as) ou"
  "sleeps (concat (map (\<lambda>a. [Jitter, Get ou, Sleep (f a)]) as)) = map f as"
  by (induction as) (simp_all add: requests_def sleeps_def)

lemma ten_attempts:
  "[0..<max_retries] = [0, 1, 2, 3, 4, 5, 6, 7, 8, 9]"
  by (simp add: max_retries_def upt_rec)

lemma for_attempts_cong:
  assumes "\<And>a w. f a w = g a w"
  shows "for_attempts f as w = for_attempts g as w"
  by (induction as arbitrary: w) (simp_all add: assms split: prod.splits outcome.splits)

lemma attempt_benign:
  assumes "benign (nt (calls w) ou)"
  shows "attempt_coll nt u ou fp a w = attempt_user nt u ou fp a w"
  using assms
  by (cases "nt (calls w) ou")
     (auto simp: attempt_coll_def attempt_user_def http_get_def jitter_def benign_def
        finish_user_def write_file_def valid_def Let_def)

lemma attempt_user_returns:
  assumes "attempt_user nt u ou fp a w = (Return b, w')"
  shows "b \<and> valid (files w') fp"
  using assms
  by (auto simp: attempt_user_def finish_user_def Let_def http_get_def
      split: reply.splits if_splits prod.splits)

lemma for_attempts_user_success:
  assumes "for_attempts (attempt_user nt u ou fp) as w = (True, w')"
  shows "valid (files w') fp"
  using assms
proof (induction as arbitrary: w)
  case Nil
  then show ?case by simp
next
  case (Cons a as)
  obtain o1 w1 where st: "attempt_user nt u ou fp a w = (o1, w1)" by (cases "attempt_user nt u ou fp a w")
  show ?case
  proof (cases o1)
    case (Return b)
    with st Cons.prems attempt_user_returns [of nt u ou fp a w b w1] show ?thesis by simp
  next
    case Continue
    with st Cons.prems have "for_attempts (attempt_user nt u ou fp) as w1 = (True, w')" by simp
    then show ?thesis by (rule Cons.IH)
  qed
qed

lemma download_image_coll_reached:
  assumes "truthy (i_url it)" and "i_user it \<noteq> NullUser"
  shows "download_image_coll nt it ls w =
     (let u = fmt_str (i_url it);
          original_url = original_url_coll u it;
          filepath = filename_coll u it;
          w1 = reconcile_coll filepath (filter (glob_match (i_id it)) ls) w
      in if valid (files w1) filepath then (True, w1)
         else for_attempts (attempt_coll nt u original_url filepath) [0..<max_retries] w1)"
  using assms by (cases "i_user it") (simp_all add: download_image_coll_def user_username_def)

lemma download_image_coll_null_user:
  assumes "i_user it = NullUser"
  shows "download_image_coll nt it ls w = (False, w)"
  using assms by (simp add: download_image_coll_def user_username_def)

lemma reconcile_user_keeps_target:
  "valid (files w) fp \<Longrightarrow> valid (files (reconcile_user fp ds w)) fp"
  using reconcile_valid_target [of w fp ds] by (simp add: valid_def)

text \<open>
  C5. When every reply is a rate-limit reply (status 429, or an exception whose text
  contains 429) and the transfer loop is reached (the item has a URL, its target is
  not valid after reconciliation and, in the collection downloader, its \<open>user\<close> is not
  \<open>null\<close>), each downloader makes exactly 10 requests, all for the canonical URL,
  sleeps 10, 20, ..., 100 seconds after them, leaves the directory as reconciliation
  left it and returns failure.
\<close>

theorem rate_limit_retry_bound:
  assumes "i_url it = Some u" and "u \<noteq> []" and "\<forall>k v. rate_limited (nt k v)"
  shows "(let fp = filename_user u it;
              wr = reconcile_user fp (filter (glob_match (i_id it)) ls) w;
              r = download_image_user nt it ls w
          in \<not> valid (files wr) fp \<longrightarrow>
               fst r = False \<and> calls (snd r) = calls w + 10 \<and> files (snd r) = files wr
               \<and> requests (trace (snd r)) = requests (trace w) @ replicate 10 (original_url_user u it)
               \<and> sleeps (trace (snd r)) = sleeps (trace w) @ [10, 20, 30, 40, 50, 60, 70, 80, 90, 100])
       \<and> (i_user it \<noteq> NullUser \<longrightarrow>
          (let fp = filename_coll u it;
               wr = reconcile_coll fp (filter (glob_match (i_id it)) ls) w;
               r = download_image_coll nt it ls w
           in \<not> valid (files wr) fp \<longrightarrow>
                fst r = False \<and> calls (snd r) = calls w + 10 \<and> files (snd r) = files wr
                \<and> requests (trace (snd r)) = requests (trace w) @ replicate 10 (original_url_coll u it)
                \<and> sleeps (trace (snd r)) = sleeps (trace w) @ [10, 20, 30, 40, 50, 60, 70, 80, 90, 100]))"
proof -
  have tr: "truthy (i_url it)" using assms(1,2) by (simp add: truthy_def)
  have fu: "fmt_str (i_url it) = u" using assms(1) by (simp add: fmt_str_def)
  have loop_u: "for_attempts (attempt_user nt u ou fp) as wr
        = (False, wr\<lparr>calls := calls wr + length as,
                      trace := trace wr @ concat (map (\<lambda>a. [Jitter, Get ou, Sleep ((a + 1) * 10)]) as)\<rparr>)"
    for ou fp as wr
    by (rule for_attempts_all_continue) (simp add: attempt_user_rate_limited assms(3))
  have loop_c: "for_attempts (attempt_coll nt u ou fp) as wr
        = (False, wr\<lparr>calls := calls wr + length as,
                      trace := trace wr @ concat (map (\<lambda>a. [Jitter, Get ou, Sleep ((a + 1) * 10)]) as)\<rparr>)"
    for ou fp as wr
    by (rule for_attempts_all_continue) (simp add: attempt_coll_rate_limited assms(3))
  define bo where "bo ou = concat (map (\<lambda>a. [Jitter, Get ou, Sleep ((a + 1) * 10)]) [0..<max_retries])"
    for ou :: string
  have views: "requests (bo ou) = replicate 10 ou"
    "sleeps (bo ou) = [10, 20, 30, 40, 50, 60, 70, 80, 90, 100]" for ou
    by (simp_all add: bo_def ten_attempts requests_def sleeps_def eval_nat_numeral)
  have U: "download_image_user nt it ls w = (False, wr\<lparr>calls := calls wr + 10, trace := trace wr @ bo ou\<rparr>)"
    if "fp = filename_user u it" "wr = reconcile_user fp (filter (glob_match (i_id it)) ls) w"
      "ou = original_url_user u it" "\<not> valid (files wr) fp" for fp wr ou
    using that by (simp add: download_image_user_def Let_def tr fu loop_u bo_def max_retries_def)
  have C: "download_image_coll nt it ls w = (False, wr\<lparr>calls := calls wr + 10, trace := trace wr @ bo ou\<rparr>)"
    if "fp = filename_coll u it" "wr = reconcile_coll fp (filter (glob_match (i_id it)) ls) w"
      "ou = original_url_coll u it" "\<not> valid (files wr) fp" "i_user it \<noteq> NullUser" for fp wr ou
    using that
    by (simp add: download_image_coll_reached [OF tr] Let_def fu loop_c bo_def max_retries_def)
  show ?thesis
    unfolding Let_def
    by (intro conjI impI)
       (simp_all add: U C views reconcile_coll_eq reconcile_calls reconcile_requests reconcile_sleeps)
qed

lemma new_item_names:
  "filename_user ''https://h/a.png'' new_item = ''new_42.png''"
  "filename_coll ''https://h/a.png'' new_item = ''new_42.png''"
  "original_url_user ''https://h/a.png'' new_item = ''https://h/a.png''"
  "original_url_coll ''https://h/a.png'' new_item = ''https://h/a.png''"
  by (simp_all add: filename_user_def filename_coll_def original_url_user_def original_url_coll_def
      new_item_def resolve_ext_user_def resolve_ext_coll_def url_suffix_ext_def endswith_def
      name_user_def name_coll_def username_coll_def user_username_def truthy_def fmt_str_def
      fmt_id_def str_int_def
      str_nat.simps digit_char_def sanitize_def sanitize_filename_def strip_def isalpha_def
      isdigit_def isspace_def cap_filename_def startswith_def Let_def)

lemma new_item_fields:
  "truthy (i_url new_item)" "fmt_str (i_url new_item) = ''https://h/a.png''"
  "i_id new_item = Some 42" "user_username (i_user new_item) = Inr None"
  "i_user new_item \<noteq> NullUser"
  by (simp_all add: new_item_def truthy_def fmt_str_def user_username_def)

lemma stale_first_pass:
  "files (reconcile_user ''new_42.png'' (filter (glob_match (Some 42)) stale_ls) stale_dir)
     = [''e_42.png'' \<mapsto> [], ''b_7.png'' \<mapsto> ''Q'', ''new_42.png'' \<mapsto> ''XYZ'']"
  "calls (reconcile_user ''new_42.png'' (filter (glob_match (Some 42)) stale_ls) stale_dir) = 0"
  by (auto simp: stale_glob stale_dir_def valid_def fun_eq_iff)

theorem rate_limit_retry_bound_witness:
  "i_url new_item = Some ''https://h/a.png'' \<and> (\<forall>k v. rate_limited (always_429 k v))
   \<and> i_user new_item \<noteq> NullUser
   \<and> \<not> valid (files (reconcile_user ''new_42.png'' (filter (glob_match (Some 42)) []) empty_dir))
         ''new_42.png''
   \<and> fst (download_image_user always_429 new_item [] empty_dir) = False
   \<and> calls (snd (download_image_user always_429 new_item [] empty_dir)) = 10
   \<and> requests (trace (snd (download_image_user always_429 new_item [] empty_dir)))
       = replicate 10 ''https://h/a.png''
   \<and> sleeps (trace (snd (download_image_user always_429 new_item [] empty_dir)))
       = [10, 20, 30, 40, 50, 60, 70, 80, 90, 100]
   \<and> fst (download_image_coll always_429 new_item [] empty_dir) = False
   \<and> sleeps (trace (snd (download_image_coll always_429 new_item [] empty_dir)))
       = [10, 20, 30, 40, 50, 60, 70, 80, 90, 100]"
proof -
  have u: "i_url new_item = Some ''https://h/a.png''" and i: "i_id new_item = Some 42"
    and nn: "i_user new_item \<noteq> NullUser"
    by (simp_all add: new_item_def)
  have ne: "''https://h/a.png'' \<noteq> []" by simp
  have rl: "\<forall>k v. rate_limited (always_429 k v)"
    by (simp add: always_429_def rate_limited_def startswith_def)
  have e: "files empty_dir = Map.empty" "calls empty_dir = 0" "trace empty_dir = []"
    by (simp_all add: empty_dir_def)
  from rate_limit_retry_bound [OF u ne rl, of "[]" empty_dir]
  show ?thesis
    by (simp add: Let_def new_item_names i u rl nn e valid_def requests_def sleeps_def)
qed

lemma png_item_names:
  "filename_user ''https://h/a.png'' png_item = ''image_1_1.png''"
  "filename_coll ''https://h/a.png'' png_item = ''image_1_1.png''"
  "filename_user ''https://h/a.png'' bob_item = ''image_1_1.png''"
  "filename_coll ''https://h/a.png'' bob_item = ''bob_image_1_1.png''"
  by (simp_all add: filename_user_def filename_coll_def bob_item_def
      png_item_def resolve_ext_user_def resolve_ext_coll_def url_suffix_ext_def endswith_def
      name_user_def name_coll_def username_coll_def user_username_def truthy_def fmt_str_def
      fmt_id_def str_int_def
      str_nat.simps digit_char_def sanitize_def sanitize_filename_def strip_def isalpha_def
      isdigit_def isspace_def cap_filename_def startswith_def Let_def)

lemma png_item_urls:
  "original_url_user ''https://h/a.png'' png_item = ''https://h/a.png''"
  "original_url_coll ''https://h/a.png'' png_item = ''https://h/a.png''"
  "original_url_user ''https://h/a.png'' bob_item = ''https://h/a.png''"
  "original_url_coll ''https://h/a.png'' bob_item = ''https://h/a.png''"
  by (simp_all add: original_url_user_def original_url_coll_def startswith_def)

lemma png_item_fields:
  "truthy (i_url png_item)" "fmt_str (i_url png_item) = ''https://h/a.png''" "i_id png_item = Some 1"
  "truthy (i_url bob_item)" "fmt_str (i_url bob_item) = ''https://h/a.png''" "i_id bob_item = Some 1"
  "user_username (i_user png_item) = Inr None" "user_username (i_user bob_item) = Inr (Some ''bob'')"
  by (simp_all add: png_item_def bob_item_def truthy_def fmt_str_def user_username_def)

text \<open>The user downloader never reports success over an empty file.\<close>

lemma user_success_means_valid:
  assumes "download_image_user nt it ls w = (True, w')"
  shows "valid (files w') (filename_user (fmt_str (i_url it)) it)"
proof (cases "truthy (i_url it)")
  case False
  with assms show ?thesis by (simp add: download_image_user_def)
next
  case True
  define fp where "fp = filename_user (fmt_str (i_url it)) it"
  define wr where "wr = reconcile_user fp (filter (glob_match (i_id it)) ls) w"
  show ?thesis
  proof (cases "valid (files wr) fp")
    case v: True
    with assms True have "w' = wr" by (simp add: download_image_user_def Let_def fp_def wr_def)
    with v show ?thesis by (simp add: fp_def)
  next
    case False
    with assms True have "for_attempts (attempt_user nt (fmt_str (i_url it))
        (original_url_user (fmt_str (i_url it)) it) fp) [0..<max_retries] wr = (True, w')"
      by (simp add: download_image_user_def Let_def fp_def wr_def)
    from for_attempts_user_success [OF this] show ?thesis by (simp add: fp_def)
  qed
qed

text \<open>
  C6. The collection downloader returns success right after writing the body of a 200
  reply, without looking at the size of the file: on an empty body it reports success
  and leaves a zero-byte file. The user downloader, on the same input, counts each
  empty file as a failed attempt and gives up after 10 requests.
\<close>

theorem collection_download_accepts_empty_file:
  "fst (download_image_coll empty_body png_item [] empty_dir) = True
   \<and> files (snd (download_image_coll empty_body png_item [] empty_dir))
        (filename_coll ''https://h/a.png'' png_item) = Some []
   \<and> fst (download_image_user empty_body png_item [] empty_dir) = False
   \<and> calls (snd (download_image_user empty_body png_item [] empty_dir)) = 10"
  by (simp add: download_image_coll_def download_image_user_def png_item_names png_item_urls
      png_item_fields Let_def empty_dir_def empty_body_def valid_def attempt_coll_def
      attempt_user_def finish_user_def http_get_def jitter_def write_file_def ten_attempts)

text \<open>
  C10, as stated, fails: for an item that carries its creator's name the collection
  downloader prefixes the file name with it, so the same item, directory and replies
  leave different files.
\<close>

theorem variants_differ_on_creator_name:
  "fst (download_image_user one_byte bob_item [] empty_dir) = True
   \<and> fst (download_image_coll one_byte bob_item [] empty_dir) = True
   \<and> files (snd (download_image_user one_byte bob_item [] empty_dir)) ''image_1_1.png'' = Some ''X''
   \<and> files (snd (download_image_coll one_byte bob_item [] empty_dir)) ''image_1_1.png'' = None
   \<and> files (snd (download_image_coll one_byte bob_item [] empty_dir)) ''bob_image_1_1.png'' = Some ''X''"
  by (simp add: download_image_coll_def download_image_user_def png_item_names png_item_urls
      png_item_fields Let_def empty_dir_def one_byte_def valid_def attempt_coll_def
      attempt_user_def finish_user_def http_get_def jitter_def write_file_def ten_attempts)

subsection \<open>Where the two downloaders agree\<close>

lemma attempt_sim:
  assumes "nt (calls w) ouu = nt (calls w) ouc"
    and "benign (nt (calls w) ouc)
         \<or> (startswith u ''http'' \<and> ouu = ouc \<and> ouc \<noteq> u \<and> other_status (nt (calls w) ouc)
             \<and> benign (nt (Suc (calls w)) u))"
    and "files w' = files w" and "calls w' = calls w"
  shows "fst (attempt_coll nt u ouc fp a w) = fst (attempt_user nt u ouu fp a w')
         \<and> files (snd (attempt_coll nt u ouc fp a w)) = files (snd (attempt_user nt u ouu fp a w'))
         \<and> calls (snd (attempt_coll nt u ouc fp a w)) = calls (snd (attempt_user nt u ouu fp a w'))"
proof (cases "nt (calls w) ouc")
  case (Raise msg)
  with assms(1) have r: "nt (calls w) ouu = Raise msg" by simp
  show ?thesis
    by (simp add: attempt_coll_def attempt_user_def http_get_def jitter_def on_exception_def
        Raise r assms(3,4))
next
  case (Reply status etext body)
  with assms(1) have r: "nt (calls w) ouu = Reply status etext body" by simp
  show ?thesis
  proof (cases "benign (nt (calls w) ouc)")
    case True
    with Reply have b: "status = 429 \<or> (status = 200 \<and> body \<noteq> [])"
      by (simp add: benign_def)
    then show ?thesis
      by (auto simp: attempt_coll_def attempt_user_def http_get_def jitter_def
          finish_user_def valid_def Let_def Reply r assms(3,4))
  next
    case False
    with assms(2) Reply have h: "startswith u ''http''" "ouu = ouc" "ouc \<noteq> u"
      and st: "status \<noteq> 200" "status \<noteq> 429"
      and b2: "benign (nt (Suc (calls w)) u)"
      by (simp_all add: other_status_def)
    show ?thesis
    proof (cases "nt (Suc (calls w)) u")
      case r2: (Raise msg2)
      show ?thesis
        by (simp add: attempt_coll_def attempt_user_def http_get_def jitter_def on_exception_def
            Reply r r2 h st assms(3,4))
    next
      case r2: (Reply status2 etext2 body2)
      with b2 have "status2 = 429 \<or> (status2 = 200 \<and> body2 \<noteq> [])" by (simp add: benign_def)
      then show ?thesis
        by (auto simp: attempt_coll_def attempt_user_def http_get_def jitter_def
            finish_user_def valid_def Let_def Reply r r2 h st assms(3,4))
    qed
  qed
qed

lemma for_attempts_sim:
  assumes "\<And>a w w'. files w' = files w \<Longrightarrow> calls w' = calls w \<Longrightarrow>
             fst (f a w) = fst (g a w') \<and> files (snd (f a w)) = files (snd (g a w'))
             \<and> calls (snd (f a w)) = calls (snd (g a w'))"
    and "files w' = files w" and "calls w' = calls w"
  shows "fst (for_attempts f as w) = fst (for_attempts g as w')
         \<and> files (snd (for_attempts f as w)) = files (snd (for_attempts g as w'))"
  using assms(2,3)
proof (induction as arbitrary: w w')
  case Nil
  then show ?case by simp
next
  case (Cons a as)
  obtain o1 w1 where f: "f a w = (o1, w1)" by (cases "f a w")
  obtain o2 w2 where g: "g a w' = (o2, w2)" by (cases "g a w'")
  from assms(1) [OF Cons.prems, of a] f g
  have same: "o2 = o1" "files w2 = files w1" "calls w2 = calls w1" by simp_all
  show ?case
  proof (cases o1)
    case (Return b)
    then have "for_attempts f (a # as) w = (b, w1)" "for_attempts g (a # as) w' = (b, w2)"
      using f g same(1) by simp_all
    with same(2) show ?thesis by simp
  next
    case Continue
    then have "for_attempts f (a # as) w = for_attempts f as w1"
      "for_attempts g (a # as) w' = for_attempts g as w2"
      using f g same(1) by simp_all
    with Cons.IH [OF same(2,3)] show ?thesis by simp
  qed
qed

lemma attempt_user_error:
  assumes "\<forall>k v. error_reply (nt k v)"
  shows "fst (attempt_user nt u ou fp a w) = Continue
         \<and> files (snd (attempt_user nt u ou fp a w)) = files w"
proof -
  have e: "error_reply (nt k v)" for k v using assms by simp
  show ?thesis
    using e [of "calls w" ou] e [of "Suc (calls w)" u]
    by (auto simp: attempt_user_def http_get_def jitter_def error_reply_def finish_user_def
        on_exception_def split: reply.splits)
qed

lemma attempt_coll_error:
  assumes "\<forall>k v. error_reply (nt k v)"
  shows "fst (attempt_coll nt u ou fp a w) \<noteq> Return True
         \<and> files (snd (attempt_coll nt u ou fp a w)) = files w"
proof -
  have e: "error_reply (nt k v)" for k v using assms by simp
  show ?thesis
    using e [of "calls w" ou] e [of "Suc (calls w)" u]
    by (auto simp: attempt_coll_def http_get_def jitter_def error_reply_def on_exception_def
        split: reply.splits)
qed

lemma for_attempts_fail:
  assumes "\<And>a w. fst (body a w) \<noteq> Return True \<and> files (snd (body a w)) = files w"
  shows "fst (for_attempts body as w) = False \<and> files (snd (for_attempts body as w)) = files w"
proof (induction as arbitrary: w)
  case Nil
  show ?case by simp
next
  case (Cons a as)
  obtain o1 w1 where b: "body a w = (o1, w1)" by (cases "body a w")
  from assms [of a w] b have o: "o1 \<noteq> Return True" and fs: "files w1 = files w" by simp_all
  show ?case
  proof (cases o1)
    case (Return r)
    with o b fs show ?thesis by simp
  next
    case Continue
    with b fs Cons.IH [of w1] show ?thesis by simp
  qed
qed

lemma canonical_urls_agree:
  "startswith u ''http'' \<Longrightarrow> original_url_coll u it = original_url_user u it"
  by (simp add: original_url_coll_def original_url_user_def)

lemma filenames_agree:
  assumes "\<not> truthy (username_coll it)"
    and "i_mimeType it \<noteq> Some ''video/mp4'' \<or> i_type it = Some ''video'' \<or> endswith u ''.mp4''"
    and "startswith u ''http'' \<or> (truthy (i_name it) \<and> sanitize (fmt_str (i_name it)) \<noteq> [])"
  shows "filename_coll u it = filename_user u it"
proof -
  have e: "resolve_ext_coll u it = resolve_ext_user u it"
    using assms(2) by (auto simp: resolve_ext_coll_def resolve_ext_user_def Let_def)
  have n: "fmt_str (name_coll u it) = name_user it"
    using assms(3)
    by (auto simp: name_coll_def name_user_def fmt_str_def truthy_def Let_def split: option.splits)
  show ?thesis
    using assms(1) by (simp add: filename_coll_def filename_user_def e n Let_def)
qed

lemma variants_agree_with_url:
  assumes "i_url it = Some u" and "u \<noteq> []"
    and "i_user it \<noteq> NullUser" and "\<not> truthy (username_coll it)"
    and "i_mimeType it \<noteq> Some ''video/mp4'' \<or> i_type it = Some ''video'' \<or> endswith u ''.mp4''"
    and "startswith u ''http'' \<or> (truthy (i_name it) \<and> sanitize (fmt_str (i_name it)) \<noteq> [])"
    and "valid (files (reconcile_user (filename_user u it) (filter (glob_match (i_id it)) ls) w))
               (filename_user u it)
         \<or> ((\<forall>k. benign (nt k (original_url_coll u it))
                 \<or> (startswith u ''http'' \<and> original_url_coll u it \<noteq> u
                     \<and> other_status (nt k (original_url_coll u it)) \<and> benign (nt (Suc k) u)))
            \<and> (\<forall>k. nt k (original_url_user u it) = nt k (original_url_coll u it)))
         \<or> (\<forall>k v. error_reply (nt k v))"
  shows "fst (download_image_coll nt it ls w) = fst (download_image_user nt it ls w)
         \<and> files (snd (download_image_coll nt it ls w)) = files (snd (download_image_user nt it ls w))"
proof -
  have tr: "truthy (i_url it)" using assms(1,2) by (simp add: truthy_def)
  have fu: "fmt_str (i_url it) = u" using assms(1) by (simp add: fmt_str_def)
  define fp where "fp = filename_user u it"
  define wr where "wr = reconcile_user fp (filter (glob_match (i_id it)) ls) w"
  have fc: "filename_coll u it = fp"
    unfolding fp_def by (rule filenames_agree [OF assms(4,5,6)])
  have C: "download_image_coll nt it ls w
           = (if valid (files wr) fp then (True, wr)
              else for_attempts (attempt_coll nt u (original_url_coll u it) fp) [0..<max_retries] wr)"
    by (simp add: download_image_coll_reached [OF tr assms(3)] Let_def fu fc reconcile_coll_eq wr_def)
  have U: "download_image_user nt it ls w
           = (if valid (files wr) fp then (True, wr)
              else for_attempts (attempt_user nt u (original_url_user u it) fp) [0..<max_retries] wr)"
    by (simp add: download_image_user_def tr Let_def fu fp_def wr_def)
  show ?thesis
  proof (cases "valid (files wr) fp")
    case True
    then show ?thesis by (simp add: C U)
  next
    case False
    with assms(7)
    have "((\<forall>k. benign (nt k (original_url_coll u it))
                 \<or> (startswith u ''http'' \<and> original_url_coll u it \<noteq> u
                     \<and> other_status (nt k (original_url_coll u it)) \<and> benign (nt (Suc k) u)))
            \<and> (\<forall>k. nt k (original_url_user u it) = nt k (original_url_coll u it)))
         \<or> (\<forall>k v. error_reply (nt k v))"
      by (simp add: wr_def fp_def)
    then show ?thesis
    proof
      assume a: "(\<forall>k. benign (nt k (original_url_coll u it))
                 \<or> (startswith u ''http'' \<and> original_url_coll u it \<noteq> u
                     \<and> other_status (nt k (original_url_coll u it)) \<and> benign (nt (Suc k) u)))
            \<and> (\<forall>k. nt k (original_url_user u it) = nt k (original_url_coll u it))"
      have same: "nt k (original_url_user u it) = nt k (original_url_coll u it)" for k using a by simp
      have can: "benign (nt k (original_url_coll u it))
                 \<or> (startswith u ''http'' \<and> original_url_user u it = original_url_coll u it
                     \<and> original_url_coll u it \<noteq> u \<and> other_status (nt k (original_url_coll u it))
                     \<and> benign (nt (Suc k) u))" for k
        using a canonical_urls_agree [of u it] by auto
      have "fst (for_attempts (attempt_coll nt u (original_url_coll u it) fp) as wr)
              = fst (for_attempts (attempt_user nt u (original_url_user u it) fp) as wr)
            \<and> files (snd (for_attempts (attempt_coll nt u (original_url_coll u it) fp) as wr))
              = files (snd (for_attempts (attempt_user nt u (original_url_user u it) fp) as wr))" for as
      proof (rule for_attempts_sim [where f = "attempt_coll nt u (original_url_coll u it) fp"
              and g = "attempt_user nt u (original_url_user u it) fp" and w = wr and w' = wr])
        fix a0 :: nat and w0 w0' :: world
        assume "files w0' = files w0" "calls w0' = calls w0"
        then show "fst (attempt_coll nt u (original_url_coll u it) fp a0 w0)
              = fst (attempt_user nt u (original_url_user u it) fp a0 w0')
            \<and> files (snd (attempt_coll nt u (original_url_coll u it) fp a0 w0))
              = files (snd (attempt_user nt u (original_url_user u it) fp a0 w0'))
            \<and> calls (snd (attempt_coll nt u (original_url_coll u it) fp a0 w0))
              = calls (snd (attempt_user nt u (original_url_user u it) fp a0 w0'))"
          using same [of "calls w0"] can [of "calls w0"] by (intro attempt_sim) simp_all
      qed simp_all
      with False show ?thesis by (simp add: C U)
    next
      assume b: "\<forall>k v. error_reply (nt k v)"
      have c: "fst (for_attempts (attempt_coll nt u (original_url_coll u it) fp) as wr) = False
            \<and> files (snd (for_attempts (attempt_coll nt u (original_url_coll u it) fp) as wr)) = files wr"
        for as
        by (rule for_attempts_fail) (rule attempt_coll_error [OF b])
      have "fst (attempt_user nt u ou fp a w0) \<noteq> Return True
            \<and> files (snd (attempt_user nt u ou fp a w0)) = files w0" for ou a w0
        using attempt_user_error [OF b, of u ou fp a w0] by simp
      then have d: "fst (for_attempts (attempt_user nt u (original_url_user u it) fp) as wr) = False
            \<and> files (snd (for_attempts (attempt_user nt u (original_url_user u it) fp) as wr)) = files wr"
        for as
        by (intro for_attempts_fail)
      from c d False show ?thesis by (simp add: C U)
    qed
  qed
qed

text \<open>
  C10, amended. The two downloaders return the same result and leave the same files

  \<^item> for an item without a URL (both fail at once), and for an item with a URL whose
    \<open>user\<close> is not \<open>null\<close>, that carries no creator name that survives sanitising,
    whose MIME type is not \<open>video/mp4\<close> unless its type is \<open>video\<close> or its URL ends in
    \<open>.mp4\<close>, and which, when its URL is a bare storage token, has a name that survives
    sanitising,
  \<^item> for every directory and listing, and
  \<^item> when the target is valid after reconciliation (both succeed without a request),
    or for replies of one of two kinds. Either every reply to the canonical URL is an
    exception, a 429 or a 200 with a non-empty body, or else, when the item's URL is a
    full one other than the canonical URL, a status other than 200 that is followed by
    such a reply to the item's own URL (both downloaders turn to that URL); and the
    canonical URLs of the two downloaders get the same replies (they are one URL when
    the item's URL is a full one). Or every reply is an exception or an error status
    (400 to 599).
\<close>

theorem variants_agree:
  assumes "\<And>u. i_url it = Some u \<Longrightarrow> u \<noteq> [] \<Longrightarrow>
             i_user it \<noteq> NullUser \<and> \<not> truthy (username_coll it)
             \<and> (i_mimeType it \<noteq> Some ''video/mp4'' \<or> i_type it = Some ''video'' \<or> endswith u ''.mp4'')
             \<and> (startswith u ''http'' \<or> (truthy (i_name it) \<and> sanitize (fmt_str (i_name it)) \<noteq> []))"
    and "\<And>u. i_url it = Some u \<Longrightarrow> u \<noteq> [] \<Longrightarrow>
             valid (files (reconcile_user (filename_user u it) (filter (glob_match (i_id it)) ls) w))
                   (filename_user u it)
             \<or> ((\<forall>k. benign (nt k (original_url_coll u it))
                     \<or> (startswith u ''http'' \<and> original_url_coll u it \<noteq> u
                         \<and> other_status (nt k (original_url_coll u it)) \<and> benign (nt (Suc k) u)))
                \<and> (\<forall>k. nt k (original_url_user u it) = nt k (original_url_coll u it)))
             \<or> (\<forall>k v. error_reply (nt k v))"
  shows "fst (download_image_coll nt it ls w) = fst (download_image_user nt it ls w)
         \<and> files (snd (download_image_coll nt it ls w)) = files (snd (download_image_user nt it ls w))"
proof (cases "truthy (i_url it)")
  case False
  then show ?thesis by (simp add: download_image_coll_def download_image_user_def)
next
  case True
  then obtain u where u: "i_url it = Some u" "u \<noteq> []"
    by (auto simp: truthy_def split: option.splits)
  from assms(1) [OF u] assms(2) [OF u] show ?thesis
    by (intro variants_agree_with_url [OF u]) simp_all
qed

lemma witness_names:
  "filename_user ''abcd'' named_token = ''pic_1.png''"
  "filename_coll ''abcd'' named_token = ''pic_1.png''"
  "original_url_user ''abcd'' named_token = base_host @ ''abcd/original=true/pic''"
  "original_url_coll ''abcd'' named_token = base_host @ ''abcd/original=true/pic''"
  "filename_user ''abcd'' dotted_token = ''apng_1.png''"
  "filename_coll ''abcd'' dotted_token = ''apng_1.png''"
  "original_url_user ''abcd'' dotted_token = base_host @ ''abcd/original=true/a.png''"
  "original_url_coll ''abcd'' dotted_token = base_host @ ''abcd/original=true/apng''"
  by (simp_all add: filename_user_def filename_coll_def original_url_user_def original_url_coll_def
      named_token_def dotted_token_def
      png_item_def resolve_ext_user_def resolve_ext_coll_def url_suffix_ext_def endswith_def
      name_user_def name_coll_def username_coll_def user_username_def truthy_def fmt_str_def
      fmt_id_def str_int_def
      str_nat.simps digit_char_def sanitize_def sanitize_filename_def strip_def isalpha_def
      isdigit_def isspace_def cap_filename_def startswith_def Let_def)

lemma witness_fields:
  "truthy (i_url named_token)" "fmt_str (i_url named_token) = ''abcd''" "i_id named_token = Some 1"
  "user_username (i_user named_token) = Inr None"
  "truthy (i_url dotted_token)" "fmt_str (i_url dotted_token) = ''abcd''" "i_id dotted_token = Some 1"
  "user_username (i_user dotted_token) = Inr None"
  "truthy (i_url null_user_item)" "fmt_str (i_url null_user_item) = ''https://h/a.png''"
  "i_id null_user_item = Some 1" "user_username (i_user null_user_item) = Inl AttributeError"
  by (simp_all add: named_token_def dotted_token_def null_user_item_def png_item_def truthy_def
      fmt_str_def user_username_def)

lemma wide_names:
  "filename_user ''https://h/width=450/a.png'' wide_item = ''image_1_1.png''"
  "filename_coll ''https://h/width=450/a.png'' wide_item = ''image_1_1.png''"
  "original_url_user ''https://h/width=450/a.png'' wide_item = ''https://h/original=true/a.png''"
  "original_url_coll ''https://h/width=450/a.png'' wide_item = ''https://h/original=true/a.png''"
  by (simp_all add: filename_user_def filename_coll_def original_url_user_def original_url_coll_def
      wide_item_def rewrite_width_def
      png_item_def resolve_ext_user_def resolve_ext_coll_def url_suffix_ext_def endswith_def
      name_user_def name_coll_def username_coll_def user_username_def truthy_def fmt_str_def
      fmt_id_def str_int_def
      str_nat.simps digit_char_def sanitize_def sanitize_filename_def strip_def isalpha_def
      isdigit_def isspace_def cap_filename_def startswith_def Let_def)

lemma wide_fields:
  "truthy (i_url wide_item)" "fmt_str (i_url wide_item) = ''https://h/width=450/a.png''"
  "i_id wide_item = Some 1" "user_username (i_user wide_item) = Inr None"
  by (simp_all add: wide_item_def png_item_def truthy_def fmt_str_def user_username_def)

lemma busy_run:
  "download_image_user busy_then_ok png_item busy_ls busy_dir
     = (True, \<lparr>files = [''x_1.png'' \<mapsto> [], ''b_7.png'' \<mapsto> ''Q'', ''image_1_1.png'' \<mapsto> ''X''],
              calls = 3,
              trace = [Jitter, Get ''https://h/a.png'', Sleep 10,
                       Jitter, Get ''https://h/a.png'', Sleep 5,
                       Jitter, Get ''https://h/a.png'', Wrote ''image_1_1.png'']\<rparr>)"
  by (simp add: download_image_user_def png_item_names png_item_urls png_item_fields Let_def
      busy_dir_def busy_ls_def busy_then_ok_def valid_def attempt_user_def finish_user_def
      http_get_def jitter_def sleep_def on_exception_def write_file_def ten_attempts
      glob_match_def fmt_id_def str_int_def str_nat.simps digit_char_def startswith_def)

theorem variants_agree_witness:
  "(i_url png_item = Some ''https://h/a.png'' \<and> i_user png_item \<noteq> NullUser
    \<and> \<not> truthy (username_coll png_item) \<and> i_mimeType png_item \<noteq> Some ''video/mp4''
    \<and> startswith ''https://h/a.png'' ''http''
    \<and> (\<forall>k v. benign (busy_then_ok k v))
    \<and> fst (download_image_coll busy_then_ok png_item busy_ls busy_dir) = True
    \<and> files (snd (download_image_coll busy_then_ok png_item busy_ls busy_dir))
        = [''x_1.png'' \<mapsto> [], ''b_7.png'' \<mapsto> ''Q'', ''image_1_1.png'' \<mapsto> ''X'']
    \<and> calls (snd (download_image_user busy_then_ok png_item busy_ls busy_dir)) = 3)
   \<and> ((\<forall>k v. error_reply (always_404 k v))
    \<and> fst (download_image_coll always_404 png_item busy_ls busy_dir) = False
    \<and> fst (download_image_user always_404 png_item busy_ls busy_dir) = False
    \<and> files (snd (download_image_coll always_404 png_item busy_ls busy_dir)) = files busy_dir
    \<and> files (snd (download_image_user always_404 png_item busy_ls busy_dir)) = files busy_dir)
   \<and> (i_url named_token = Some ''abcd'' \<and> \<not> startswith ''abcd'' ''http''
    \<and> truthy (i_name named_token) \<and> sanitize (fmt_str (i_name named_token)) = ''pic''
    \<and> (\<forall>k v. benign (one_byte k v))
    \<and> fst (download_image_coll one_byte named_token [] empty_dir) = True
    \<and> files (snd (download_image_coll one_byte named_token [] empty_dir)) ''pic_1.png'' = Some ''X'')
   \<and> (i_url wide_item = Some ''https://h/width=450/a.png''
    \<and> original_url_coll ''https://h/width=450/a.png'' wide_item = ''https://h/original=true/a.png''
    \<and> (\<forall>k. other_status (original_missing k ''https://h/original=true/a.png''))
    \<and> (\<forall>k. benign (original_missing k ''https://h/width=450/a.png''))
    \<and> fst (download_image_coll original_missing wide_item [] empty_dir) = True
    \<and> files (snd (download_image_coll original_missing wide_item [] empty_dir)) ''image_1_1.png''
         = Some ''X''
    \<and> calls (snd (download_image_user original_missing wide_item [] empty_dir)) = 2)
   \<and> (valid (files (reconcile_user ''new_42.png'' (filter (glob_match (Some 42)) stale_ls) stale_dir))
          ''new_42.png''
    \<and> fst (download_image_coll not_found_once new_item stale_ls stale_dir) = True
    \<and> files (snd (download_image_coll not_found_once new_item stale_ls stale_dir)) ''new_42.png''
         = Some ''XYZ''
    \<and> calls (snd (download_image_user not_found_once new_item stale_ls stale_dir)) = 0)
   \<and> (i_url no_url_item = None
    \<and> fst (download_image_coll one_byte no_url_item busy_ls busy_dir) = False
    \<and> files (snd (download_image_coll one_byte no_url_item busy_ls busy_dir)) = files busy_dir)"
proof -
  have n: "i_user png_item \<noteq> NullUser \<and> \<not> truthy (username_coll png_item)
       \<and> (i_mimeType png_item \<noteq> Some ''video/mp4'' \<or> i_type png_item = Some ''video''
           \<or> endswith u ''.mp4'')
       \<and> (startswith u ''http''
           \<or> (truthy (i_name png_item) \<and> sanitize (fmt_str (i_name png_item)) \<noteq> []))"
    if "i_url png_item = Some u" "u \<noteq> []" for u
    using that
    by (auto simp: png_item_def username_coll_def user_username_def truthy_def startswith_def)
  have it: "i_url png_item = Some ''https://h/a.png''" "i_user png_item \<noteq> NullUser"
    "\<not> truthy (username_coll png_item)" "i_mimeType png_item \<noteq> Some ''video/mp4''"
    "startswith ''https://h/a.png'' ''http''"
    by (simp_all add: png_item_def username_coll_def user_username_def truthy_def startswith_def)
  have first: "i_url png_item = Some ''https://h/a.png'' \<and> i_user png_item \<noteq> NullUser
    \<and> \<not> truthy (username_coll png_item) \<and> i_mimeType png_item \<noteq> Some ''video/mp4''
    \<and> startswith ''https://h/a.png'' ''http''
    \<and> (\<forall>k v. benign (busy_then_ok k v))
    \<and> fst (download_image_coll busy_then_ok png_item busy_ls busy_dir) = True
    \<and> files (snd (download_image_coll busy_then_ok png_item busy_ls busy_dir))
        = [''x_1.png'' \<mapsto> [], ''b_7.png'' \<mapsto> ''Q'', ''image_1_1.png'' \<mapsto> ''X'']
    \<and> calls (snd (download_image_user busy_then_ok png_item busy_ls busy_dir)) = 3"
  proof -
    have b: "\<forall>k v. benign (busy_then_ok k v)" by (simp add: busy_then_ok_def benign_def)
    have r: "valid (files (reconcile_user (filename_user u png_item)
                       (filter (glob_match (i_id png_item)) busy_ls) busy_dir))
                   (filename_user u png_item)
             \<or> ((\<forall>k. benign (busy_then_ok k (original_url_coll u png_item))
                     \<or> (startswith u ''http'' \<and> original_url_coll u png_item \<noteq> u
                         \<and> other_status (busy_then_ok k (original_url_coll u png_item))
                         \<and> benign (busy_then_ok (Suc k) u)))
                \<and> (\<forall>k. busy_then_ok k (original_url_user u png_item)
                       = busy_then_ok k (original_url_coll u png_item)))
             \<or> (\<forall>k v. error_reply (busy_then_ok k v))"
      if "i_url png_item = Some u" "u \<noteq> []" for u
    proof -
      from that(1) have u: "u = ''https://h/a.png''" by (simp add: png_item_def)
      show ?thesis unfolding u using b by (simp add: png_item_urls)
    qed
    from variants_agree [OF n r] b it
    show ?thesis
      by (simp add: busy_run)
  qed
  have second: "(\<forall>k v. error_reply (always_404 k v))
    \<and> fst (download_image_coll always_404 png_item busy_ls busy_dir) = False
    \<and> fst (download_image_user always_404 png_item busy_ls busy_dir) = False
    \<and> files (snd (download_image_coll always_404 png_item busy_ls busy_dir)) = files busy_dir
    \<and> files (snd (download_image_user always_404 png_item busy_ls busy_dir)) = files busy_dir"
  proof -
    have b: "\<forall>k v. error_reply (always_404 k v)" by (simp add: always_404_def error_reply_def)
    then have r: "valid (files (reconcile_user (filename_user u png_item)
                       (filter (glob_match (i_id png_item)) busy_ls) busy_dir))
                   (filename_user u png_item)
             \<or> ((\<forall>k. benign (always_404 k (original_url_coll u png_item))
                     \<or> (startswith u ''http'' \<and> original_url_coll u png_item \<noteq> u
                         \<and> other_status (always_404 k (original_url_coll u png_item))
                         \<and> benign (always_404 (Suc k) u)))
                \<and> (\<forall>k. always_404 k (original_url_user u png_item)
                       = always_404 k (original_url_coll u png_item)))
             \<or> (\<forall>k v. error_reply (always_404 k v))"
      if "i_url png_item = Some u" "u \<noteq> []" for u
      by simp
    have c: "download_image_coll always_404 png_item busy_ls busy_dir
             = (False, busy_dir\<lparr>calls := 1, trace := [Jitter, Get ''https://h/a.png'']\<rparr>)"
      by (simp add: download_image_coll_def png_item_names png_item_urls png_item_fields Let_def
          busy_dir_def busy_ls_def always_404_def valid_def attempt_coll_def
          http_get_def jitter_def ten_attempts
          glob_match_def fmt_id_def str_int_def str_nat.simps digit_char_def startswith_def)
    from variants_agree [OF n r] b
    show ?thesis by (simp add: c)
  qed
  have third: "i_url named_token = Some ''abcd'' \<and> \<not> startswith ''abcd'' ''http''
    \<and> truthy (i_name named_token) \<and> sanitize (fmt_str (i_name named_token)) = ''pic''
    \<and> (\<forall>k v. benign (one_byte k v))
    \<and> fst (download_image_coll one_byte named_token [] empty_dir) = True
    \<and> files (snd (download_image_coll one_byte named_token [] empty_dir)) ''pic_1.png'' = Some ''X''"
  proof -
    have t: "i_url named_token = Some ''abcd''"
      and nm: "truthy (i_name named_token)" "sanitize (fmt_str (i_name named_token)) = ''pic''"
      and nh: "\<not> startswith ''abcd'' ''http''"
      by (simp_all add: named_token_def png_item_def truthy_def
          startswith_def fmt_str_def sanitize_def strip_def isalpha_def isdigit_def isspace_def)
    have n': "i_user named_token \<noteq> NullUser \<and> \<not> truthy (username_coll named_token)
       \<and> (i_mimeType named_token \<noteq> Some ''video/mp4'' \<or> i_type named_token = Some ''video''
           \<or> endswith u ''.mp4'')
       \<and> (startswith u ''http''
           \<or> (truthy (i_name named_token) \<and> sanitize (fmt_str (i_name named_token)) \<noteq> []))"
      if "i_url named_token = Some u" "u \<noteq> []" for u
      using nm by (simp add: named_token_def png_item_def username_coll_def user_username_def truthy_def)
    have b: "\<forall>k v. benign (one_byte k v)" by (simp add: one_byte_def benign_def)
    have r: "valid (files (reconcile_user (filename_user u named_token)
                       (filter (glob_match (i_id named_token)) []) empty_dir))
                   (filename_user u named_token)
             \<or> ((\<forall>k. benign (one_byte k (original_url_coll u named_token))
                     \<or> (startswith u ''http'' \<and> original_url_coll u named_token \<noteq> u
                         \<and> other_status (one_byte k (original_url_coll u named_token))
                         \<and> benign (one_byte (Suc k) u)))
                \<and> (\<forall>k. one_byte k (original_url_user u named_token)
                       = one_byte k (original_url_coll u named_token)))
             \<or> (\<forall>k v. error_reply (one_byte k v))"
      if "i_url named_token = Some u" "u \<noteq> []" for u
      using b by (simp add: one_byte_def)
    have u: "download_image_user one_byte named_token [] empty_dir
             = (True, \<lparr>files = [''pic_1.png'' \<mapsto> ''X''], calls = 1,
                      trace = [Jitter, Get (base_host @ ''abcd/original=true/pic''),
                               Wrote ''pic_1.png'']\<rparr>)"
      by (simp add: download_image_user_def witness_names witness_fields Let_def
          empty_dir_def one_byte_def valid_def attempt_user_def finish_user_def
          http_get_def jitter_def write_file_def ten_attempts)
    from variants_agree [OF n' r] b t nm nh
    show ?thesis by (simp add: u)
  qed
  have fourth: "i_url wide_item = Some ''https://h/width=450/a.png''
    \<and> original_url_coll ''https://h/width=450/a.png'' wide_item = ''https://h/original=true/a.png''
    \<and> (\<forall>k. other_status (original_missing k ''https://h/original=true/a.png''))
    \<and> (\<forall>k. benign (original_missing k ''https://h/width=450/a.png''))
    \<and> fst (download_image_coll original_missing wide_item [] empty_dir) = True
    \<and> files (snd (download_image_coll original_missing wide_item [] empty_dir)) ''image_1_1.png''
         = Some ''X''
    \<and> calls (snd (download_image_user original_missing wide_item [] empty_dir)) = 2"
  proof -
    have t: "i_url wide_item = Some ''https://h/width=450/a.png''"
      and h: "startswith ''https://h/width=450/a.png'' ''http''"
      by (simp_all add: wide_item_def png_item_def startswith_def)
    have n': "i_user wide_item \<noteq> NullUser \<and> \<not> truthy (username_coll wide_item)
       \<and> (i_mimeType wide_item \<noteq> Some ''video/mp4'' \<or> i_type wide_item = Some ''video''
           \<or> endswith u ''.mp4'')
       \<and> (startswith u ''http''
           \<or> (truthy (i_name wide_item) \<and> sanitize (fmt_str (i_name wide_item)) \<noteq> []))"
      if "i_url wide_item = Some u" "u \<noteq> []" for u
      using that
      by (auto simp: wide_item_def png_item_def username_coll_def user_username_def truthy_def
          startswith_def)
    have o: "\<forall>k. other_status (original_missing k ''https://h/original=true/a.png'')"
      and b: "\<forall>k. benign (original_missing k ''https://h/width=450/a.png'')"
      by (simp_all add: original_missing_def other_status_def benign_def)
    have r: "valid (files (reconcile_user (filename_user u wide_item)
                       (filter (glob_match (i_id wide_item)) []) empty_dir))
                   (filename_user u wide_item)
             \<or> ((\<forall>k. benign (original_missing k (original_url_coll u wide_item))
                     \<or> (startswith u ''http'' \<and> original_url_coll u wide_item \<noteq> u
                         \<and> other_status (original_missing k (original_url_coll u wide_item))
                         \<and> benign (original_missing (Suc k) u)))
                \<and> (\<forall>k. original_missing k (original_url_user u wide_item)
                       = original_missing k (original_url_coll u wide_item)))
             \<or> (\<forall>k v. error_reply (original_missing k v))"
      if "i_url wide_item = Some u" "u \<noteq> []" for u
    proof -
      from that(1) have u: "u = ''https://h/width=450/a.png''" by (simp add: wide_item_def)
      show ?thesis unfolding u using o b h by (simp add: wide_names)
    qed
    have u: "download_image_user original_missing wide_item [] empty_dir
             = (True, \<lparr>files = [''image_1_1.png'' \<mapsto> ''X''], calls = 2,
                      trace = [Jitter, Get ''https://h/original=true/a.png'',
                               Get ''https://h/width=450/a.png'', Wrote ''image_1_1.png'']\<rparr>)"
      by (simp add: download_image_user_def wide_names wide_fields Let_def
          empty_dir_def original_missing_def valid_def attempt_user_def finish_user_def
          http_get_def jitter_def write_file_def ten_attempts startswith_def)
    from variants_agree [OF n' r] o b t
    show ?thesis by (simp add: u wide_names)
  qed
  have fifth: "valid (files (reconcile_user ''new_42.png'' (filter (glob_match (Some 42)) stale_ls) stale_dir))
          ''new_42.png''
    \<and> fst (download_image_coll not_found_once new_item stale_ls stale_dir) = True
    \<and> files (snd (download_image_coll not_found_once new_item stale_ls stale_dir)) ''new_42.png''
         = Some ''XYZ''
    \<and> calls (snd (download_image_user not_found_once new_item stale_ls stale_dir)) = 0"
  proof -
    have v: "valid (files (reconcile_user ''new_42.png'' (filter (glob_match (Some 42)) stale_ls) stale_dir))
          ''new_42.png''"
      by (simp add: stale_first_pass valid_def)
    have n': "i_user new_item \<noteq> NullUser \<and> \<not> truthy (username_coll new_item)
       \<and> (i_mimeType new_item \<noteq> Some ''video/mp4'' \<or> i_type new_item = Some ''video''
           \<or> endswith u ''.mp4'')
       \<and> (startswith u ''http''
           \<or> (truthy (i_name new_item) \<and> sanitize (fmt_str (i_name new_item)) \<noteq> []))"
      if "i_url new_item = Some u" "u \<noteq> []" for u
      using that
      by (auto simp: new_item_def username_coll_def user_username_def truthy_def startswith_def)
    have r: "valid (files (reconcile_user (filename_user u new_item)
                       (filter (glob_match (i_id new_item)) stale_ls) stale_dir))
                   (filename_user u new_item)
             \<or> ((\<forall>k. benign (not_found_once k (original_url_coll u new_item))
                     \<or> (startswith u ''http'' \<and> original_url_coll u new_item \<noteq> u
                         \<and> other_status (not_found_once k (original_url_coll u new_item))
                         \<and> benign (not_found_once (Suc k) u)))
                \<and> (\<forall>k. not_found_once k (original_url_user u new_item)
                       = not_found_once k (original_url_coll u new_item)))
             \<or> (\<forall>k v. error_reply (not_found_once k v))"
      if "i_url new_item = Some u" "u \<noteq> []" for u
    proof -
      from that(1) have u: "u = ''https://h/a.png''" by (simp add: new_item_def)
      show ?thesis unfolding u using v by (simp add: new_item_names new_item_fields)
    qed
    have u: "download_image_user not_found_once new_item stale_ls stale_dir
             = (True, reconcile_user ''new_42.png'' (filter (glob_match (Some 42)) stale_ls) stale_dir)"
      using v by (simp add: download_image_user_def Let_def new_item_fields new_item_names)
    from variants_agree [OF n' r] v
    show ?thesis by (simp add: u stale_first_pass)
  qed
  have sixth: "i_url no_url_item = None
    \<and> fst (download_image_coll one_byte no_url_item busy_ls busy_dir) = False
    \<and> files (snd (download_image_coll one_byte no_url_item busy_ls busy_dir)) = files busy_dir"
  proof -
    have e: "i_url no_url_item = None" by (simp add: no_url_item_def)
    have u: "download_image_user one_byte no_url_item busy_ls busy_dir = (False, busy_dir)"
      by (simp add: download_image_user_def e truthy_def)
    from variants_agree [of no_url_item busy_ls busy_dir one_byte] e
    show ?thesis by (simp add: u)
  qed
  from first second third fourth fifth sixth show ?thesis by blast
qed

text \<open>On full URLs and replies of the first kind the two downloaders also leave the same
  trace: they are the same function.\<close>

lemma variants_same_trace:
  assumes "i_url it = Some u" and "startswith u ''http''"
    and "i_user it \<noteq> NullUser" and "\<not> truthy (username_coll it)"
    and "i_mimeType it \<noteq> Some ''video/mp4''" and "\<forall>k v. benign (nt k v)"
  shows "download_image_coll nt it ls w = download_image_user nt it ls w"
proof -
  have ne: "u \<noteq> []" using assms(2) by (auto simp: startswith_def)
  have tr: "truthy (i_url it)" using assms(1) ne by (simp add: truthy_def)
  have fu: "fmt_str (i_url it) = u" using assms(1) by (simp add: fmt_str_def)
  have fn: "filename_coll u it = filename_user u it"
    by (rule filenames_agree) (simp_all add: assms)
  have loop: "for_attempts (attempt_coll nt u ou fp) as wr = for_attempts (attempt_user nt u ou fp) as wr"
    for ou fp as wr
    by (rule for_attempts_cong) (simp add: attempt_benign assms(6))
  show ?thesis
    by (simp add: download_image_coll_reached [OF tr assms(3)] download_image_user_def tr fu Let_def
        fn canonical_urls_agree [OF assms(2)] reconcile_coll_eq loop)
qed

text \<open>
  Where the two downloaders part, besides the creator's name: a \<open>user\<close> that is \<open>null\<close>
  (the collection downloader fails before it does anything), the MIME type, a bare
  storage token without a name or with a name that does not survive sanitising, a
  storage token whose name changes under sanitising
  (the canonical URLs differ, and so may the replies to them), an error status
  followed by a success (the collection downloader gives up at the first), and a
  success status other than 200 (the user downloader writes the body). A 200 reply
  with an empty body is the case shown before: the collection downloader reports
  success over the empty file.
\<close>

lemma variants_differ_elsewhere:
  "download_image_coll one_byte null_user_item [] empty_dir = (False, empty_dir)"
  "fst (download_image_user one_byte null_user_item [] empty_dir) = True"
  "filename_user ''https://h/a.png'' mime_item = ''image_1_1.png''"
  "filename_coll ''https://h/a.png'' mime_item = ''image_1_1.mp4''"
  "filename_user ''abcd'' token_item = ''image_1_1.png''"
  "filename_coll ''abcd'' token_item = ''None_1.png''"
  "filename_user ''abcd'' bang_token = ''image_1_1.png''"
  "filename_coll ''abcd'' bang_token = ''_1.png''"
  "fst (download_image_user only_named_url dotted_token [] empty_dir) = True"
  "fst (download_image_coll only_named_url dotted_token [] empty_dir) = False"
  "fst (download_image_user not_found_once png_item [] empty_dir) = True"
  "fst (download_image_coll not_found_once png_item [] empty_dir) = False"
  "fst (download_image_user no_content png_item [] empty_dir) = True"
  "fst (download_image_coll no_content png_item [] empty_dir) = False"
proof -
  show "download_image_coll one_byte null_user_item [] empty_dir = (False, empty_dir)"
    by (simp add: download_image_coll_def witness_fields)
  have nn: "filename_user ''https://h/a.png'' null_user_item = ''image_1_1.png''"
    "original_url_user ''https://h/a.png'' null_user_item = ''https://h/a.png''"
    by (simp_all add: filename_user_def original_url_user_def null_user_item_def
      png_item_def resolve_ext_user_def url_suffix_ext_def endswith_def
      name_user_def truthy_def fmt_str_def fmt_id_def str_int_def
      str_nat.simps digit_char_def sanitize_def sanitize_filename_def strip_def isalpha_def
      isdigit_def isspace_def cap_filename_def startswith_def Let_def)
  show "fst (download_image_user one_byte null_user_item [] empty_dir) = True"
    by (simp add: download_image_user_def nn witness_fields Let_def empty_dir_def one_byte_def
      valid_def attempt_user_def finish_user_def http_get_def jitter_def write_file_def ten_attempts)
  show "filename_user ''https://h/a.png'' mime_item = ''image_1_1.png''"
    "filename_coll ''https://h/a.png'' mime_item = ''image_1_1.mp4''"
    "filename_user ''abcd'' token_item = ''image_1_1.png''"
    "filename_coll ''abcd'' token_item = ''None_1.png''"
    "filename_user ''abcd'' bang_token = ''image_1_1.png''"
    "filename_coll ''abcd'' bang_token = ''_1.png''"
    by (simp_all add: filename_user_def filename_coll_def mime_item_def token_item_def bang_token_def
      png_item_def resolve_ext_user_def resolve_ext_coll_def url_suffix_ext_def endswith_def
      name_user_def name_coll_def username_coll_def user_username_def truthy_def fmt_str_def
      fmt_id_def str_int_def
      str_nat.simps digit_char_def sanitize_def sanitize_filename_def strip_def isalpha_def
      isdigit_def isspace_def cap_filename_def startswith_def Let_def)
  show "fst (download_image_user only_named_url dotted_token [] empty_dir) = True"
    by (simp add: download_image_user_def witness_names witness_fields Let_def empty_dir_def
      only_named_url_def valid_def attempt_user_def finish_user_def http_get_def jitter_def
      write_file_def ten_attempts)
  show "fst (download_image_coll only_named_url dotted_token [] empty_dir) = False"
    by (simp add: download_image_coll_def witness_names witness_fields Let_def empty_dir_def
      only_named_url_def valid_def attempt_coll_def http_get_def jitter_def
      write_file_def ten_attempts base_host_def)
  show "fst (download_image_user not_found_once png_item [] empty_dir) = True"
    by (simp add: download_image_user_def png_item_names png_item_urls
      png_item_fields Let_def empty_dir_def not_found_once_def valid_def
      attempt_user_def finish_user_def http_get_def jitter_def write_file_def ten_attempts
      on_exception_def sleep_def startswith_def)
  show "fst (download_image_coll not_found_once png_item [] empty_dir) = False"
    by (simp add: download_image_coll_def png_item_names png_item_urls
      png_item_fields Let_def empty_dir_def not_found_once_def valid_def
      attempt_coll_def http_get_def jitter_def write_file_def ten_attempts)
  show "fst (download_image_user no_content png_item [] empty_dir) = True"
    by (simp add: download_image_user_def png_item_names png_item_urls
      png_item_fields Let_def empty_dir_def no_content_def valid_def
      attempt_user_def finish_user_def http_get_def jitter_def write_file_def ten_attempts)
  show "fst (download_image_coll no_content png_item [] empty_dir) = False"
    by (simp add: download_image_coll_def png_item_names png_item_urls
      png_item_fields Let_def empty_dir_def no_content_def valid_def
      attempt_coll_def http_get_def jitter_def write_file_def ten_attempts)
qed

text \<open>
  C2, amended. If the target is valid after reconciliation, the download returns
  success with the reconciled directory: no request is made and no sleep taken. If
  the target is valid at the start (as it is in a second run over unchanged items), the
  download returns success again without the network, and the directory changes at most
  by the removal of listed files other than the target that match \<open>*_<id>.*\<close>. (The
  collection downloader computes a target only for an item whose \<open>user\<close> is not \<open>null\<close>.)
\<close>

theorem already_present_skips_network:
  assumes "i_url it = Some u" and "u \<noteq> []"
  shows "(let fp = filename_user u it;
              wr = reconcile_user fp (filter (glob_match (i_id it)) ls) w
          in (valid (files wr) fp \<longrightarrow>
                download_image_user nt it ls w = (True, wr) \<and> calls wr = calls w
                \<and> requests (trace wr) = requests (trace w) \<and> sleeps (trace wr) = sleeps (trace w))
           \<and> (valid (files w) fp \<longrightarrow>
                download_image_user nt it ls w = (True, wr)
                \<and> (\<forall>n. files wr n
                        = (if n \<in> set ls \<and> glob_match (i_id it) n \<and> n \<noteq> fp then None else files w n))
                \<and> ((\<forall>n \<in> set ls. glob_match (i_id it) n \<longrightarrow> n = fp) \<longrightarrow> files wr = files w)))
       \<and> (i_user it \<noteq> NullUser \<longrightarrow>
          (let fp = filename_coll u it;
               wr = reconcile_coll fp (filter (glob_match (i_id it)) ls) w
           in (valid (files wr) fp \<longrightarrow>
                 download_image_coll nt it ls w = (True, wr) \<and> calls wr = calls w
                 \<and> requests (trace wr) = requests (trace w) \<and> sleeps (trace wr) = sleeps (trace w))
            \<and> (valid (files w) fp \<longrightarrow>
                 download_image_coll nt it ls w = (True, wr)
                 \<and> (\<forall>n. files wr n
                         = (if n \<in> set ls \<and> glob_match (i_id it) n \<and> n \<noteq> fp then None else files w n))
                 \<and> ((\<forall>n \<in> set ls. glob_match (i_id it) n \<longrightarrow> n = fp) \<longrightarrow> files wr = files w))))"
proof -
  have tr: "truthy (i_url it)" using assms by (simp add: truthy_def)
  have fu: "fmt_str (i_url it) = u" using assms(1) by (simp add: fmt_str_def)
  have U: "download_image_user nt it ls w = (True, wr)"
    if "wr = reconcile_user (filename_user u it) (filter (glob_match (i_id it)) ls) w"
      "valid (files wr) (filename_user u it)" for wr
    using that by (simp add: download_image_user_def Let_def tr fu)
  have C: "download_image_coll nt it ls w = (True, wr)"
    if "wr = reconcile_user (filename_coll u it) (filter (glob_match (i_id it)) ls) w"
      "valid (files wr) (filename_coll u it)" "i_user it \<noteq> NullUser" for wr
    using that by (simp add: download_image_coll_reached [OF tr] Let_def fu reconcile_coll_eq)
  have S: "files (reconcile_user fp (filter (glob_match (i_id it)) ls) w) n
           = (if n \<in> set ls \<and> glob_match (i_id it) n \<and> n \<noteq> fp then None else files w n)"
    if "valid (files w) fp" for fp n
    using reconcile_valid_target [OF that, of "filter (glob_match (i_id it)) ls"] by simp
  have I: "files (reconcile_user fp (filter (glob_match (i_id it)) ls) w) = files w"
    if "valid (files w) fp" "\<forall>n \<in> set ls. glob_match (i_id it) n \<longrightarrow> n = fp" for fp
    using that(2) by (auto simp: fun_eq_iff S [OF that(1)])
  show ?thesis
    unfolding Let_def reconcile_coll_eq
    by (intro conjI impI allI)
       (simp_all add: U C S I reconcile_calls reconcile_requests reconcile_sleeps
          reconcile_user_keeps_target)
qed

lemma second_glob:
  "filter (glob_match (Some 42)) second_ls = [''e_42.png'', ''new_42.png'']"
  by (simp add: second_ls_def glob_match_def fmt_id_def str_int_def str_nat.simps digit_char_def
      startswith_def)

text \<open>
  C2, as stated, fails: a first run renames \<open>old_42.png\<close> to the target and leaves the
  empty \<open>e_42.png\<close>, which came first in the listing; the second run reports the item
  as present, makes no request, and deletes \<open>e_42.png\<close>. The directory after the second
  run is not the directory after the first.
\<close>

theorem second_run_changes_directory:
  "fst (download_image_user one_byte new_item stale_ls stale_dir) = True
   \<and> files (snd (download_image_user one_byte new_item stale_ls stale_dir)) ''new_42.png'' = Some ''XYZ''
   \<and> files (snd (download_image_user one_byte new_item stale_ls stale_dir)) ''e_42.png'' = Some []
   \<and> set second_ls = dom (files (snd (download_image_user one_byte new_item stale_ls stale_dir)))
   \<and> fst (download_image_user one_byte new_item second_ls
            (snd (download_image_user one_byte new_item stale_ls stale_dir))) = True
   \<and> calls (snd (download_image_user one_byte new_item second_ls
            (snd (download_image_user one_byte new_item stale_ls stale_dir)))) = 0
   \<and> files (snd (download_image_user one_byte new_item second_ls
            (snd (download_image_user one_byte new_item stale_ls stale_dir)))) ''e_42.png'' = None"
proof -
  define w1 where "w1 = reconcile_user ''new_42.png'' (filter (glob_match (Some 42)) stale_ls) stale_dir"
  have f1: "files w1 = [''e_42.png'' \<mapsto> [], ''b_7.png'' \<mapsto> ''Q'', ''new_42.png'' \<mapsto> ''XYZ'']"
    and c1: "calls w1 = 0"
    by (simp_all add: w1_def stale_first_pass)
  have v1: "valid (files w1) ''new_42.png''" by (simp add: f1 valid_def)
  have r1: "download_image_user one_byte new_item stale_ls stale_dir = (True, w1)"
    using v1 by (simp add: download_image_user_def Let_def new_item_fields new_item_names w1_def)
  define w2 where "w2 = reconcile_user ''new_42.png'' (filter (glob_match (Some 42)) second_ls) w1"
  have f2: "files w2 ''e_42.png'' = None" and v2: "valid (files w2) ''new_42.png''" and c2: "calls w2 = 0"
    using reconcile_valid_target [OF v1, of "filter (glob_match (Some 42)) second_ls"]
    by (simp_all add: w2_def second_glob f1 valid_def reconcile_calls c1)
  have r2: "download_image_user one_byte new_item second_ls w1 = (True, w2)"
    using v2 by (simp add: download_image_user_def Let_def new_item_fields new_item_names w2_def)
  have d: "set second_ls = dom (files w1)" by (auto simp: second_ls_def f1)
  show ?thesis by (simp add: r1 r2 f1 f2 c2 d)
qed

theorem already_present_skips_network_witness:
  "(i_url new_item = Some ''https://h/a.png'' \<and> i_user new_item \<noteq> NullUser
   \<and> valid (files (reconcile_user ''new_42.png'' (filter (glob_match (Some 42)) stale_ls) stale_dir))
        ''new_42.png''
   \<and> download_image_user one_byte new_item stale_ls stale_dir
       = (True, reconcile_user ''new_42.png'' (filter (glob_match (Some 42)) stale_ls) stale_dir)
   \<and> calls (snd (download_image_user one_byte new_item stale_ls stale_dir)) = calls stale_dir
   \<and> requests (trace (snd (download_image_user one_byte new_item stale_ls stale_dir))) = []
   \<and> download_image_coll one_byte new_item stale_ls stale_dir
       = (True, reconcile_coll ''new_42.png'' (filter (glob_match (Some 42)) stale_ls) stale_dir))
   \<and> (valid (files dup_dir) ''new_42.png''
   \<and> fst (download_image_user one_byte new_item dup_ls dup_dir) = True
   \<and> files (snd (download_image_user one_byte new_item dup_ls dup_dir)) ''old_42.png'' = None
   \<and> files (snd (download_image_user one_byte new_item dup_ls dup_dir)) ''new_42.png'' = Some ''XYZ''
   \<and> calls (snd (download_image_user one_byte new_item dup_ls dup_dir)) = 0
   \<and> valid (files clean_dir) ''new_42.png''
   \<and> fst (download_image_coll one_byte new_item clean_ls clean_dir) = True
   \<and> files (snd (download_image_coll one_byte new_item clean_ls clean_dir)) = files clean_dir)"
proof -
  have first: "i_url new_item = Some ''https://h/a.png'' \<and> i_user new_item \<noteq> NullUser
   \<and> valid (files (reconcile_user ''new_42.png'' (filter (glob_match (Some 42)) stale_ls) stale_dir))
        ''new_42.png''
   \<and> download_image_user one_byte new_item stale_ls stale_dir
       = (True, reconcile_user ''new_42.png'' (filter (glob_match (Some 42)) stale_ls) stale_dir)
   \<and> calls (snd (download_image_user one_byte new_item stale_ls stale_dir)) = calls stale_dir
   \<and> requests (trace (snd (download_image_user one_byte new_item stale_ls stale_dir))) = []
   \<and> download_image_coll one_byte new_item stale_ls stale_dir
       = (True, reconcile_coll ''new_42.png'' (filter (glob_match (Some 42)) stale_ls) stale_dir)"
  proof -
    have u: "i_url new_item = Some ''https://h/a.png''" by (simp add: new_item_def)
    have ne: "''https://h/a.png'' \<noteq> []" by simp
    have v: "valid (files (reconcile_user ''new_42.png'' (filter (glob_match (Some 42)) stale_ls) stale_dir))
          ''new_42.png''"
      by (simp add: stale_first_pass valid_def)
    have t: "requests (trace stale_dir) = []" by (simp add: stale_dir_def requests_def)
    from already_present_skips_network [OF u ne, of stale_ls stale_dir one_byte] v t
    have "download_image_user one_byte new_item stale_ls stale_dir
           = (True, reconcile_user ''new_42.png'' (filter (glob_match (Some 42)) stale_ls) stale_dir)
          \<and> calls (reconcile_user ''new_42.png'' (filter (glob_match (Some 42)) stale_ls) stale_dir)
             = calls stale_dir
          \<and> requests (trace (reconcile_user ''new_42.png'' (filter (glob_match (Some 42)) stale_ls)
               stale_dir)) = []
          \<and> download_image_coll one_byte new_item stale_ls stale_dir
           = (True, reconcile_coll ''new_42.png'' (filter (glob_match (Some 42)) stale_ls) stale_dir)"
      by (simp add: Let_def new_item_names new_item_fields reconcile_coll_eq)
    with u v show ?thesis by (simp add: new_item_fields)
  qed
  have second: "valid (files dup_dir) ''new_42.png''
   \<and> fst (download_image_user one_byte new_item dup_ls dup_dir) = True
   \<and> files (snd (download_image_user one_byte new_item dup_ls dup_dir)) ''old_42.png'' = None
   \<and> files (snd (download_image_user one_byte new_item dup_ls dup_dir)) ''new_42.png'' = Some ''XYZ''
   \<and> calls (snd (download_image_user one_byte new_item dup_ls dup_dir)) = 0
   \<and> valid (files clean_dir) ''new_42.png''
   \<and> fst (download_image_coll one_byte new_item clean_ls clean_dir) = True
   \<and> files (snd (download_image_coll one_byte new_item clean_ls clean_dir)) = files clean_dir"
  proof -
    have u: "i_url new_item = Some ''https://h/a.png''" by (simp add: new_item_def)
    have ne: "''https://h/a.png'' \<noteq> []" by simp
    have v: "valid (files dup_dir) ''new_42.png''" "valid (files clean_dir) ''new_42.png''"
      by (simp_all add: dup_dir_def clean_dir_def valid_def)
    have g: "glob_match (Some 42) ''old_42.png''" "\<not> glob_match (Some 42) ''b_7.png''"
      by (simp_all add: glob_match_def fmt_id_def str_int_def str_nat.simps digit_char_def
          startswith_def)
    have d: "files dup_dir ''new_42.png'' = Some ''XYZ''" "calls dup_dir = 0"
      by (simp_all add: dup_dir_def)
    from already_present_skips_network [OF u ne, of dup_ls dup_dir one_byte, THEN conjunct1] v(1) g d
    have a: "fst (download_image_user one_byte new_item dup_ls dup_dir) = True
     \<and> files (snd (download_image_user one_byte new_item dup_ls dup_dir)) ''old_42.png'' = None
     \<and> files (snd (download_image_user one_byte new_item dup_ls dup_dir)) ''new_42.png'' = Some ''XYZ''
     \<and> calls (snd (download_image_user one_byte new_item dup_ls dup_dir)) = 0"
      by (simp add: Let_def new_item_names new_item_fields dup_ls_def reconcile_calls)
    from already_present_skips_network [OF u ne, of clean_ls clean_dir one_byte, THEN conjunct2] v(2) g
    have b: "fst (download_image_coll one_byte new_item clean_ls clean_dir) = True
     \<and> files (snd (download_image_coll one_byte new_item clean_ls clean_dir)) = files clean_dir"
      by (simp add: Let_def new_item_names new_item_fields clean_ls_def)
    from a b v show ?thesis by simp
  qed
  from first second show ?thesis by (rule conjI)
qed


section \<open>Properties: metadata fetching\<close>

lemma fetch_steps [simp]:
  "f_calls (page_jitter s) = f_calls s" "f_trace (page_jitter s) = f_trace s @ [PageJitter]"
  "f_calls (page_sleep n s) = f_calls s" "f_trace (page_sleep n s) = f_trace s @ [PageSleep n]"
  by (simp_all add: page_jitter_def page_sleep_def)

lemma page_views_append [simp]:
  "page_requests (s @ t) = page_requests s @ page_requests t"
  "page_sleeps (s @ t) = page_sleeps s @ page_sleeps t"
  by (simp_all add: page_requests_def page_sleeps_def)

lemma page_views_Cons [simp]:
  "page_requests [] = []" "page_requests (PageJitter # t) = page_requests t"
  "page_requests (PageGet c # t) = c # page_requests t"
  "page_requests (PageSleep n # t) = page_requests t"
  "page_sleeps [] = []" "page_sleeps (PageJitter # t) = page_sleeps t"
  "page_sleeps (PageGet c # t) = page_sleeps t"
  "page_sleeps (PageSleep n # t) = n # page_sleeps t"
  by (simp_all add: page_requests_def page_sleeps_def)

lemma handlers_keep_requests [simp]:
  "f_calls (images_on_exception a m s) = f_calls s"
  "page_requests (f_trace (images_on_exception a m s)) = page_requests (f_trace s)"
  "f_calls (posts_on_exception a m s) = f_calls s"
  "page_requests (f_trace (posts_on_exception a m s)) = page_requests (f_trace s)"
  by (simp_all add: images_on_exception_def posts_on_exception_def)

lemma fetch_page_server_errors:
  assumes "\<forall>k<length as. server_error (api (f_calls s + k) (sent_cursor cur))"
  shows "fetch_page h api cur as s
         = (None, s\<lparr>f_calls := f_calls s + length as,
                     f_trace := f_trace s
                        @ concat (map (\<lambda>a. [PageJitter, PageGet (sent_cursor cur), PageSleep ((a + 1) * 5)]) as)\<rparr>)"
  using assms
proof (induction as arbitrary: s)
  case Nil
  show ?case by simp
next
  case (Cons a as)
  define s1 where "s1 = page_sleep ((a + 1) * 5)
      (s\<lparr>f_calls := f_calls s + 1, f_trace := f_trace s @ [PageJitter, PageGet (sent_cursor cur)]\<rparr>)"
  from Cons.prems have "server_error (api (f_calls s + 0) (sent_cursor cur))" by blast
  then have step: "fetch_page h api cur (a # as) s = fetch_page h api cur as s1"
    by (cases "api (f_calls s) (sent_cursor cur)")
       (simp_all add: server_error_def api_get_def page_jitter_def s1_def)
  have "\<forall>k<length as. server_error (api (f_calls s1 + k) (sent_cursor cur))"
  proof (intro allI impI)
    fix k assume "k < length as"
    then have "server_error (api (f_calls s + Suc k) (sent_cursor cur))" using Cons.prems by auto
    then show "server_error (api (f_calls s1 + k) (sent_cursor cur))" by (simp add: s1_def)
  qed
  from Cons.IH [OF this] show ?case
    unfolding step by (simp add: s1_def page_sleep_def)
qed

lemma fetch_page_all_failed:
  assumes h: "\<And>a m s. f_calls (h a m s) = f_calls s"
      "\<And>a m s. page_requests (f_trace (h a m s)) = page_requests (f_trace s)"
    and "\<forall>k<length as. failed_reply (api (f_calls s + k) (sent_cursor cur))"
  shows "fst (fetch_page h api cur as s) = None
         \<and> f_calls (snd (fetch_page h api cur as s)) = f_calls s + length as
         \<and> page_requests (f_trace (snd (fetch_page h api cur as s)))
             = page_requests (f_trace s) @ replicate (length as) (sent_cursor cur)"
  using assms(3)
proof (induction as arbitrary: s)
  case Nil
  show ?case by simp
next
  case (Cons a as)
  define s0 where "s0 = s\<lparr>f_calls := f_calls s + 1, f_trace := f_trace s @ [PageJitter, PageGet (sent_cursor cur)]\<rparr>"
  from Cons.prems have f0: "failed_reply (api (f_calls s + 0) (sent_cursor cur))" by blast
  have "\<exists>s1. fetch_page h api cur (a # as) s = fetch_page h api cur as s1
           \<and> f_calls s1 = f_calls s + 1
           \<and> page_requests (f_trace s1) = page_requests (f_trace s) @ [sent_cursor cur]"
  proof (cases "api (f_calls s) (sent_cursor cur)")
    case (ApiRaise msg)
    then show ?thesis
      by (intro exI [of _ "h a msg s0"]) (simp add: api_get_def page_jitter_def s0_def h)
  next
    case (ApiReply status etext pg)
    with f0 have st: "400 \<le> status" "status < 600" by (simp_all add: failed_reply_def)
    show ?thesis
    proof (cases "500 \<le> status")
      case True
      with ApiReply st show ?thesis
        by (intro exI [of _ "page_sleep ((a + 1) * 5) s0"]) (simp add: api_get_def page_jitter_def s0_def)
    next
      case False
      with ApiReply st show ?thesis
        by (intro exI [of _ "h a etext s0"]) (simp add: api_get_def page_jitter_def s0_def h)
    qed
  qed
  then obtain s1 where step: "fetch_page h api cur (a # as) s = fetch_page h api cur as s1"
    and c1: "f_calls s1 = f_calls s + 1"
    and r1: "page_requests (f_trace s1) = page_requests (f_trace s) @ [sent_cursor cur]" by blast
  have "\<forall>k<length as. failed_reply (api (f_calls s1 + k) (sent_cursor cur))"
  proof (intro allI impI)
    fix k assume "k < length as"
    then have "failed_reply (api (f_calls s + Suc k) (sent_cursor cur))" using Cons.prems by auto
    then show "failed_reply (api (f_calls s1 + k) (sent_cursor cur))" by (simp add: c1)
  qed
  from Cons.IH [OF this] show ?case
    unfolding step by (simp add: c1 r1 replicate_append_same)
qed

lemma five_attempts: "[0..<page_retries] = [0, 1, 2, 3, 4]"
  by (simp add: page_retries_def upt_rec)

lemma five_server_errors:
  assumes "\<forall>k<5. server_error (ap (f_calls s + k) (sent_cursor cur))"
  shows "fetch_page h ap cur [0..<page_retries] s
           = (None, s\<lparr>f_calls := f_calls s + 5,
                   f_trace := f_trace s
                     @ concat (map (\<lambda>a. [PageJitter, PageGet (sent_cursor cur), PageSleep ((a + 1) * 5)])
                                   [0, 1, 2, 3, 4])\<rparr>)"
  unfolding five_attempts
  using fetch_page_server_errors [of "[0, 1, 2, 3, 4]" ap s cur h] assms
  by (simp del: fetch_page.simps)

lemma five_failures:
  assumes "\<forall>k<5. failed_reply (ap (f_calls s + k) (sent_cursor cur))"
    and "\<And>a m s. f_calls (h a m s) = f_calls s"
    and "\<And>a m s. page_requests (f_trace (h a m s)) = page_requests (f_trace s)"
  shows "\<exists>s'. fetch_page h ap cur [0..<page_retries] s = (None, s')
            \<and> f_calls s' = f_calls s + 5
            \<and> page_requests (f_trace s') = page_requests (f_trace s) @ replicate 5 (sent_cursor cur)"
  unfolding five_attempts
  using fetch_page_all_failed [of h "[0, 1, 2, 3, 4]" ap s cur, OF assms(2,3)] assms(1)
  by (cases "fetch_page h ap cur [0, 1, 2, 3, 4] s")
     (simp del: fetch_page.simps add: eval_nat_numeral)

lemma server_error_retries:
  "((\<forall>k<5. server_error (api (f_calls s + k) (sent_cursor cur))) \<longrightarrow>
      (let s' = s\<lparr>f_calls := f_calls s + 5,
                   f_trace := f_trace s
                     @ concat (map (\<lambda>a. [PageJitter, PageGet (sent_cursor cur), PageSleep ((a + 1) * 5)])
                                   [0, 1, 2, 3, 4])\<rparr>
       in get_images_loop api fromisoformat ident is_username after_date cur images s = Some (images, s')
          \<and> get_collection_images_loop api cur images s = Some (images, s')
          \<and> page_sleeps (f_trace s') = page_sleeps (f_trace s) @ [5, 10, 15, 20, 25]
          \<and> page_requests (f_trace s') = page_requests (f_trace s) @ replicate 5 (sent_cursor cur)))
   \<and> ((\<forall>k<5. server_error (papi (f_calls s + k) (sent_cursor cur))) \<longrightarrow>
      get_posts_loop papi fromisoformat ident is_username after_date cur images s
        = Some (images, s\<lparr>f_calls := f_calls s + 5,
                   f_trace := f_trace s
                     @ concat (map (\<lambda>a. [PageJitter, PageGet (sent_cursor cur), PageSleep ((a + 1) * 5)])
                                   [0, 1, 2, 3, 4])\<rparr>))
   \<and> ((\<forall>k<5. failed_reply (api (f_calls s + k) (sent_cursor cur))) \<longrightarrow>
      (\<exists>s'. get_images_loop api fromisoformat ident is_username after_date cur images s = Some (images, s')
            \<and> f_calls s' = f_calls s + 5
            \<and> page_requests (f_trace s') = page_requests (f_trace s) @ replicate 5 (sent_cursor cur))
      \<and> (\<exists>s'. get_collection_images_loop api cur images s = Some (images, s')
            \<and> f_calls s' = f_calls s + 5
            \<and> page_requests (f_trace s') = page_requests (f_trace s) @ replicate 5 (sent_cursor cur)))
   \<and> ((\<forall>k<5. failed_reply (papi (f_calls s + k) (sent_cursor cur))) \<longrightarrow>
      (\<exists>s'. get_posts_loop papi fromisoformat ident is_username after_date cur images s = Some (images, s')
            \<and> f_calls s' = f_calls s + 5
            \<and> page_requests (f_trace s') = page_requests (f_trace s) @ replicate 5 (sent_cursor cur)))"
proof -
  have I: "get_images_loop api fromisoformat ident is_username after_date cur images s = Some (images, s')"
    if "fetch_page images_on_exception api cur [0..<page_retries] s = (None, s')" for s'
    by (subst get_images_loop.simps) (simp add: that)
  have C: "get_collection_images_loop api cur images s = Some (images, s')"
    if "fetch_page images_on_exception api cur [0..<page_retries] s = (None, s')" for s'
    by (subst get_collection_images_loop.simps) (simp add: that)
  have P: "get_posts_loop papi fromisoformat ident is_username after_date cur images s = Some (images, s')"
    if "fetch_page posts_on_exception papi cur [0..<page_retries] s = (None, s')" for s'
    by (subst get_posts_loop.simps) (simp add: that)
  show ?thesis
  proof (intro conjI impI)
    assume h: "\<forall>k<5. server_error (api (f_calls s + k) (sent_cursor cur))"
    show "let s' = s\<lparr>f_calls := f_calls s + 5,
                   f_trace := f_trace s
                     @ concat (map (\<lambda>a. [PageJitter, PageGet (sent_cursor cur), PageSleep ((a + 1) * 5)])
                                   [0, 1, 2, 3, 4])\<rparr>
       in get_images_loop api fromisoformat ident is_username after_date cur images s = Some (images, s')
          \<and> get_collection_images_loop api cur images s = Some (images, s')
          \<and> page_sleeps (f_trace s') = page_sleeps (f_trace s) @ [5, 10, 15, 20, 25]
          \<and> page_requests (f_trace s') = page_requests (f_trace s) @ replicate 5 (sent_cursor cur)"
      unfolding Let_def
      using I [OF five_server_errors [where ap = api and h = images_on_exception, OF h]]
        C [OF five_server_errors [where ap = api and h = images_on_exception, OF h]]
      by (simp add: eval_nat_numeral)
  next
    assume h: "\<forall>k<5. server_error (papi (f_calls s + k) (sent_cursor cur))"
    show "get_posts_loop papi fromisoformat ident is_username after_date cur images s
        = Some (images, s\<lparr>f_calls := f_calls s + 5,
                   f_trace := f_trace s
                     @ concat (map (\<lambda>a. [PageJitter, PageGet (sent_cursor cur), PageSleep ((a + 1) * 5)])
                                   [0, 1, 2, 3, 4])\<rparr>)"
      by (rule P [OF five_server_errors [where ap = papi and h = posts_on_exception, OF h]])
  next
    assume h: "\<forall>k<5. failed_reply (api (f_calls s + k) (sent_cursor cur))"
    from five_failures [where ap = api and h = images_on_exception, OF h] obtain s' where
      "fetch_page images_on_exception api cur [0..<page_retries] s = (None, s')"
      "f_calls s' = f_calls s + 5"
      "page_requests (f_trace s') = page_requests (f_trace s) @ replicate 5 (sent_cursor cur)"
      by auto
    then show "\<exists>s'. get_images_loop api fromisoformat ident is_username after_date cur images s = Some (images, s')
            \<and> f_calls s' = f_calls s + 5
            \<and> page_requests (f_trace s') = page_requests (f_trace s) @ replicate 5 (sent_cursor cur)"
      and "\<exists>s'. get_collection_images_loop api cur images s = Some (images, s')
            \<and> f_calls s' = f_calls s + 5
            \<and> page_requests (f_trace s') = page_requests (f_trace s) @ replicate 5 (sent_cursor cur)"
      using I C by blast+
  next
    assume h: "\<forall>k<5. failed_reply (papi (f_calls s + k) (sent_cursor cur))"
    from five_failures [where ap = papi and h = posts_on_exception, OF h] obtain s' where
      "fetch_page posts_on_exception papi cur [0..<page_retries] s = (None, s')"
      "f_calls s' = f_calls s + 5"
      "page_requests (f_trace s') = page_requests (f_trace s) @ replicate 5 (sent_cursor cur)"
      by auto
    then show "\<exists>s'. get_posts_loop papi fromisoformat ident is_username after_date cur images s = Some (images, s')
            \<and> f_calls s' = f_calls s + 5
            \<and> page_requests (f_trace s') = page_requests (f_trace s) @ replicate 5 (sent_cursor cur)"
      using P by blast
  qed
qed

lemma fetch_page_all_raise:
  assumes h: "\<And>a m s. P m \<Longrightarrow> h a m s = s\<lparr>f_trace := f_trace s @ ev a\<rparr>"
    and "\<forall>k<length as. raises_with P (api (f_calls s + k) (sent_cursor cur))"
  shows "fetch_page h api cur as s
         = (None, s\<lparr>f_calls := f_calls s + length as,
                     f_trace := f_trace s
                        @ concat (map (\<lambda>a. [PageJitter, PageGet (sent_cursor cur)] @ ev a) as)\<rparr>)"
  using assms(2)
proof (induction as arbitrary: s)
  case Nil
  show ?case by simp
next
  case (Cons a as)
  define s1 where "s1 = s\<lparr>f_calls := f_calls s + 1,
      f_trace := f_trace s @ [PageJitter, PageGet (sent_cursor cur)] @ ev a\<rparr>"
  from Cons.prems have "raises_with P (api (f_calls s + 0) (sent_cursor cur))" by blast
  then obtain m where m: "api (f_calls s) (sent_cursor cur) = ApiRaise m" "P m"
    by (cases "api (f_calls s) (sent_cursor cur)") (simp_all add: raises_with_def)
  have step: "fetch_page h api cur (a # as) s = fetch_page h api cur as s1"
    by (simp add: m api_get_def page_jitter_def s1_def h [OF m(2)])
  have "\<forall>k<length as. raises_with P (api (f_calls s1 + k) (sent_cursor cur))"
  proof (intro allI impI)
    fix k assume "k < length as"
    then have "raises_with P (api (f_calls s + Suc k) (sent_cursor cur))" using Cons.prems by auto
    then show "raises_with P (api (f_calls s1 + k) (sent_cursor cur))" by (simp add: s1_def)
  qed
  from Cons.IH [OF this] show ?case
    unfolding step by (simp add: s1_def)
qed

lemma five_exceptions:
  assumes "\<And>a m s. P m \<Longrightarrow> h a m s = s\<lparr>f_trace := f_trace s @ ev a\<rparr>"
    and "\<forall>k<5. raises_with P (ap (f_calls s + k) (sent_cursor cur))"
  shows "fetch_page h ap cur [0..<page_retries] s
         = (None, s\<lparr>f_calls := f_calls s + 5,
                     f_trace := f_trace s
                        @ concat (map (\<lambda>a. [PageJitter, PageGet (sent_cursor cur)] @ ev a)
                                      [0, 1, 2, 3, 4])\<rparr>)"
  unfolding five_attempts
  using fetch_page_all_raise [of P h ev "[0, 1, 2, 3, 4]" ap s cur, OF assms(1)] assms(2)
  by (simp del: fetch_page.simps)

lemma handler_events:
  "posts_on_exception a m s = s\<lparr>f_trace := f_trace s @ [PageSleep ((a + 1) * 2)]\<rparr>"
  "names_5xx m \<Longrightarrow> images_on_exception a m s
     = s\<lparr>f_trace := f_trace s @ (if a < 4 then [PageSleep ((a + 1) * 5)] else [])\<rparr>"
  "\<not> names_5xx m \<Longrightarrow> images_on_exception a m s = s\<lparr>f_trace := f_trace s @ []\<rparr>"
  by (simp_all add: posts_on_exception_def images_on_exception_def names_5xx_def page_sleep_def
      page_retries_def)

lemma exception_retries:
  "((\<forall>k<5. raises_with (\<lambda>m. True) (papi (f_calls s + k) (sent_cursor cur))) \<longrightarrow>
      (\<exists>s'. get_posts_loop papi fromisoformat ident is_username after_date cur images s = Some (images, s')
            \<and> f_calls s' = f_calls s + 5
            \<and> page_sleeps (f_trace s') = page_sleeps (f_trace s) @ [2, 4, 6, 8, 10]))
   \<and> ((\<forall>k<5. raises_with names_5xx (api (f_calls s + k) (sent_cursor cur))) \<longrightarrow>
      (\<exists>s'. get_images_loop api fromisoformat ident is_username after_date cur images s = Some (images, s')
            \<and> get_collection_images_loop api cur images s = Some (images, s')
            \<and> f_calls s' = f_calls s + 5
            \<and> page_sleeps (f_trace s') = page_sleeps (f_trace s) @ [5, 10, 15, 20]))
   \<and> ((\<forall>k<5. raises_with (\<lambda>m. \<not> names_5xx m) (api (f_calls s + k) (sent_cursor cur))) \<longrightarrow>
      (\<exists>s'. get_images_loop api fromisoformat ident is_username after_date cur images s = Some (images, s')
            \<and> get_collection_images_loop api cur images s = Some (images, s')
            \<and> f_calls s' = f_calls s + 5
            \<and> page_sleeps (f_trace s') = page_sleeps (f_trace s)))"
proof (intro conjI impI)
  assume a: "\<forall>k<5. raises_with (\<lambda>m. True) (papi (f_calls s + k) (sent_cursor cur))"
  note f = five_exceptions [where P = "\<lambda>m. True" and h = posts_on_exception and ap = papi
      and ev = "\<lambda>a. [PageSleep ((a + 1) * 2)]", OF handler_events(1) a]
  show "\<exists>s'. get_posts_loop papi fromisoformat ident is_username after_date cur images s = Some (images, s')
            \<and> f_calls s' = f_calls s + 5
            \<and> page_sleeps (f_trace s') = page_sleeps (f_trace s) @ [2, 4, 6, 8, 10]"
    by (subst get_posts_loop.simps) (simp add: f)
next
  assume a: "\<forall>k<5. raises_with names_5xx (api (f_calls s + k) (sent_cursor cur))"
  note f = five_exceptions [where P = names_5xx and h = images_on_exception and ap = api
      and ev = "\<lambda>a. if a < 4 then [PageSleep ((a + 1) * 5)] else []", OF handler_events(2) a]
  show "\<exists>s'. get_images_loop api fromisoformat ident is_username after_date cur images s = Some (images, s')
            \<and> get_collection_images_loop api cur images s = Some (images, s')
            \<and> f_calls s' = f_calls s + 5
            \<and> page_sleeps (f_trace s') = page_sleeps (f_trace s) @ [5, 10, 15, 20]"
    by (subst get_images_loop.simps, subst get_collection_images_loop.simps) (simp add: f)
next
  assume a: "\<forall>k<5. raises_with (\<lambda>m. \<not> names_5xx m) (api (f_calls s + k) (sent_cursor cur))"
  note f = five_exceptions [where P = "\<lambda>m. \<not> names_5xx m" and h = images_on_exception and ap = api
      and ev = "\<lambda>a. []", OF handler_events(3) a]
  show "\<exists>s'. get_images_loop api fromisoformat ident is_username after_date cur images s = Some (images, s')
            \<and> get_collection_images_loop api cur images s = Some (images, s')
            \<and> f_calls s' = f_calls s + 5
            \<and> page_sleeps (f_trace s') = page_sleeps (f_trace s)"
    by (subst get_images_loop.simps, subst get_collection_images_loop.simps) (simp add: f)
qed

text \<open>
  C7, amended. From any point of the pagination (cursor, items accumulated so far,
  requests made so far): if the next five replies to the page request are 5xx
  responses, each of the three fetchers requests the same page five times, sleeps 5,
  10, 15, 20 and 25 seconds after the attempts, and returns the accumulated items.
  If the five replies fail in any way (exception, 4xx or 5xx), the fetcher still makes
  exactly five requests for the same page and returns the accumulated items. After
  exceptions the back-off is the handler's: 2, 4, 6, 8 and 10 seconds in \<open>get_posts\<close>;
  in \<open>get_images\<close> and \<open>get_collection_images\<close> 5, 10, 15 and 20 seconds when the text
  names a 5xx code (none after the last attempt), and none otherwise.
\<close>

theorem page_retry_then_partial_result:
  "(((\<forall>k<5. server_error (api (f_calls s + k) (sent_cursor cur))) \<longrightarrow>
      (let s' = s\<lparr>f_calls := f_calls s + 5,
                   f_trace := f_trace s
                     @ concat (map (\<lambda>a. [PageJitter, PageGet (sent_cursor cur), PageSleep ((a + 1) * 5)])
                                   [0, 1, 2, 3, 4])\<rparr>
       in get_images_loop api fromisoformat ident is_username after_date cur images s = Some (images, s')
          \<and> get_collection_images_loop api cur images s = Some (images, s')
          \<and> page_sleeps (f_trace s') = page_sleeps (f_trace s) @ [5, 10, 15, 20, 25]
          \<and> page_requests (f_trace s') = page_requests (f_trace s) @ replicate 5 (sent_cursor cur)))
   \<and> ((\<forall>k<5. server_error (papi (f_calls s + k) (sent_cursor cur))) \<longrightarrow>
      get_posts_loop papi fromisoformat ident is_username after_date cur images s
        = Some (images, s\<lparr>f_calls := f_calls s + 5,
                   f_trace := f_trace s
                     @ concat (map (\<lambda>a. [PageJitter, PageGet (sent_cursor cur), PageSleep ((a + 1) * 5)])
                                   [0, 1, 2, 3, 4])\<rparr>))
   \<and> ((\<forall>k<5. failed_reply (api (f_calls s + k) (sent_cursor cur))) \<longrightarrow>
      (\<exists>s'. get_images_loop api fromisoformat ident is_username after_date cur images s = Some (images, s')
            \<and> f_calls s' = f_calls s + 5
            \<and> page_requests (f_trace s') = page_requests (f_trace s) @ replicate 5 (sent_cursor cur))
      \<and> (\<exists>s'. get_collection_images_loop api cur images s = Some (images, s')
            \<and> f_calls s' = f_calls s + 5
            \<and> page_requests (f_trace s') = page_requests (f_trace s) @ replicate 5 (sent_cursor cur)))
   \<and> ((\<forall>k<5. failed_reply (papi (f_calls s + k) (sent_cursor cur))) \<longrightarrow>
      (\<exists>s'. get_posts_loop papi fromisoformat ident is_username after_date cur images s = Some (images, s')
            \<and> f_calls s' = f_calls s + 5
            \<and> page_requests (f_trace s') = page_requests (f_trace s) @ replicate 5 (sent_cursor cur))))
   \<and> (((\<forall>k<5. raises_with (\<lambda>m. True) (papi (f_calls s + k) (sent_cursor cur))) \<longrightarrow>
      (\<exists>s'. get_posts_loop papi fromisoformat ident is_username after_date cur images s = Some (images, s')
            \<and> f_calls s' = f_calls s + 5
            \<and> page_sleeps (f_trace s') = page_sleeps (f_trace s) @ [2, 4, 6, 8, 10]))
   \<and> ((\<forall>k<5. raises_with names_5xx (api (f_calls s + k) (sent_cursor cur))) \<longrightarrow>
      (\<exists>s'. get_images_loop api fromisoformat ident is_username after_date cur images s = Some (images, s')
            \<and> get_collection_images_loop api cur images s = Some (images, s')
            \<and> f_calls s' = f_calls s + 5
            \<and> page_sleeps (f_trace s') = page_sleeps (f_trace s) @ [5, 10, 15, 20]))
   \<and> ((\<forall>k<5. raises_with (\<lambda>m. \<not> names_5xx m) (api (f_calls s + k) (sent_cursor cur))) \<longrightarrow>
      (\<exists>s'. get_images_loop api fromisoformat ident is_username after_date cur images s = Some (images, s')
            \<and> get_collection_images_loop api cur images s = Some (images, s')
            \<and> f_calls s' = f_calls s + 5
            \<and> page_sleeps (f_trace s') = page_sleeps (f_trace s))))"
  using server_error_retries [of api s cur fromisoformat ident is_username after_date images papi]
    exception_retries [of papi s cur fromisoformat ident is_username after_date images api]
  by blast

theorem page_retry_then_partial_result_witness:
  "(server_error (flaky_api 1 (Some (CStr ''c''))) \<and> server_error (flaky_api 5 (Some (CStr ''c'')))
   \<and> get_images_loop flaky_api no_dates (UserId 1) False None (Some (CStr ''c'')) [png_item]
        after_first_page
      = Some ([png_item],
          \<lparr>f_calls = 6,
           f_trace = [PageJitter, PageGet None,
             PageJitter, PageGet (Some (CStr ''c'')), PageSleep 5,
             PageJitter, PageGet (Some (CStr ''c'')), PageSleep 10,
             PageJitter, PageGet (Some (CStr ''c'')), PageSleep 15,
             PageJitter, PageGet (Some (CStr ''c'')), PageSleep 20,
             PageJitter, PageGet (Some (CStr ''c'')), PageSleep 25]\<rparr>)
   \<and> get_images flaky_api no_dates (UserId 1) False None
      = Some (Inr [png_item],
          \<lparr>f_calls = 6,
           f_trace = [PageJitter, PageGet None,
             PageJitter, PageGet (Some (CStr ''c'')), PageSleep 5,
             PageJitter, PageGet (Some (CStr ''c'')), PageSleep 10,
             PageJitter, PageGet (Some (CStr ''c'')), PageSleep 15,
             PageJitter, PageGet (Some (CStr ''c'')), PageSleep 20,
             PageJitter, PageGet (Some (CStr ''c'')), PageSleep 25]\<rparr>))
   \<and> ((\<exists>s'. get_posts_loop timeout_api no_dates (UserId 1) False None None [] fetch_start = Some ([], s')
         \<and> page_sleeps (f_trace s') = [2, 4, 6, 8, 10])
   \<and> (\<exists>s'. get_images_loop gateway_api no_dates (UserId 1) False None None [] fetch_start = Some ([], s')
         \<and> page_sleeps (f_trace s') = [5, 10, 15, 20])
   \<and> (\<exists>s'. get_collection_images_loop timeout_api None [] fetch_start = Some ([], s')
         \<and> page_sleeps (f_trace s') = []))"
proof -
  have first: "server_error (flaky_api 1 (Some (CStr ''c''))) \<and> server_error (flaky_api 5 (Some (CStr ''c'')))
   \<and> get_images_loop flaky_api no_dates (UserId 1) False None (Some (CStr ''c'')) [png_item]
        after_first_page
      = Some ([png_item],
          \<lparr>f_calls = 6,
           f_trace = [PageJitter, PageGet None,
             PageJitter, PageGet (Some (CStr ''c'')), PageSleep 5,
             PageJitter, PageGet (Some (CStr ''c'')), PageSleep 10,
             PageJitter, PageGet (Some (CStr ''c'')), PageSleep 15,
             PageJitter, PageGet (Some (CStr ''c'')), PageSleep 20,
             PageJitter, PageGet (Some (CStr ''c'')), PageSleep 25]\<rparr>)
   \<and> get_images flaky_api no_dates (UserId 1) False None
      = Some (Inr [png_item],
          \<lparr>f_calls = 6,
           f_trace = [PageJitter, PageGet None,
             PageJitter, PageGet (Some (CStr ''c'')), PageSleep 5,
             PageJitter, PageGet (Some (CStr ''c'')), PageSleep 10,
             PageJitter, PageGet (Some (CStr ''c'')), PageSleep 15,
             PageJitter, PageGet (Some (CStr ''c'')), PageSleep 20,
             PageJitter, PageGet (Some (CStr ''c'')), PageSleep 25]\<rparr>)"
  proof -
    have sc: "sent_cursor (Some (CStr ''c'')) = Some (CStr ''c'')" "sent_cursor None = None"
      by (simp_all add: sent_cursor_def cursor_truthy_def)
    have h: "\<forall>k<5. server_error (flaky_api (f_calls after_first_page + k) (sent_cursor (Some (CStr ''c''))))"
      by (simp add: flaky_api_def server_error_def after_first_page_def)
    have e: "server_error (flaky_api 1 (Some (CStr ''c'')))" "server_error (flaky_api 5 (Some (CStr ''c'')))"
      by (simp_all add: flaky_api_def server_error_def)
    from page_retry_then_partial_result [where api = flaky_api and s = after_first_page
        and cur = "Some (CStr ''c'')" and fromisoformat = no_dates and ident = "UserId 1"
        and is_username = False and after_date = None and images = "[png_item]",
        THEN conjunct1, THEN conjunct1] h
    have loop: "get_images_loop flaky_api no_dates (UserId 1) False None (Some (CStr ''c'')) [png_item]
          after_first_page
        = Some ([png_item],
            \<lparr>f_calls = 6,
             f_trace = [PageJitter, PageGet None,
               PageJitter, PageGet (Some (CStr ''c'')), PageSleep 5,
               PageJitter, PageGet (Some (CStr ''c'')), PageSleep 10,
               PageJitter, PageGet (Some (CStr ''c'')), PageSleep 15,
               PageJitter, PageGet (Some (CStr ''c'')), PageSleep 20,
               PageJitter, PageGet (Some (CStr ''c'')), PageSleep 25]\<rparr>)"
      by (simp add: Let_def sc after_first_page_def)
    have first: "fetch_page images_on_exception flaky_api None [0..<page_retries] fetch_start
                 = (Some (Page [png_item] (Some (CStr ''c''))), after_first_page)"
      by (simp add: five_attempts api_get_def page_jitter_def fetch_start_def flaky_api_def sc
          after_first_page_def)
    have keep: "filter_images no_dates (UserId 1) False None [png_item] = [png_item]"
      by (simp add: filter_images_def owner_mismatch_def older_def png_item_def)
    have "get_images_loop flaky_api no_dates (UserId 1) False None None [] fetch_start
          = get_images_loop flaky_api no_dates (UserId 1) False None (Some (CStr ''c'')) [png_item]
              after_first_page"
      by (subst get_images_loop.simps)
         (simp add: first keep cursor_truthy_def date_stop_def older_def)
    with loop have "get_images flaky_api no_dates (UserId 1) False None
        = Some (sort_newest [png_item],
            \<lparr>f_calls = 6,
             f_trace = [PageJitter, PageGet None,
               PageJitter, PageGet (Some (CStr ''c'')), PageSleep 5,
               PageJitter, PageGet (Some (CStr ''c'')), PageSleep 10,
               PageJitter, PageGet (Some (CStr ''c'')), PageSleep 15,
               PageJitter, PageGet (Some (CStr ''c'')), PageSleep 20,
               PageJitter, PageGet (Some (CStr ''c'')), PageSleep 25]\<rparr>)"
      by (simp add: get_images_def)
    with loop e show ?thesis by (simp add: sort_newest_def)
  qed
  have second: "(\<exists>s'. get_posts_loop timeout_api no_dates (UserId 1) False None None [] fetch_start = Some ([], s')
         \<and> page_sleeps (f_trace s') = [2, 4, 6, 8, 10])
   \<and> (\<exists>s'. get_images_loop gateway_api no_dates (UserId 1) False None None [] fetch_start = Some ([], s')
         \<and> page_sleeps (f_trace s') = [5, 10, 15, 20])
   \<and> (\<exists>s'. get_collection_images_loop timeout_api None [] fetch_start = Some ([], s')
         \<and> page_sleeps (f_trace s') = [])"
  proof -
    have h1: "\<forall>k<5. raises_with (\<lambda>m. True) (timeout_api (f_calls fetch_start + k) (sent_cursor None))"
      by (simp add: raises_with_def timeout_api_def)
    have h2: "\<forall>k<5. raises_with names_5xx (gateway_api (f_calls fetch_start + k) (sent_cursor None))"
      by (simp add: raises_with_def gateway_api_def names_5xx_def startswith_def)
    have h3: "\<forall>k<5. raises_with (\<lambda>m. \<not> names_5xx m) (timeout_api (f_calls fetch_start + k) (sent_cursor None))"
      by (simp add: raises_with_def timeout_api_def names_5xx_def startswith_def)
    have e: "page_sleeps (f_trace fetch_start) = []" by (simp add: fetch_start_def)
    from page_retry_then_partial_result [where s = fetch_start and cur = None
        and fromisoformat = no_dates and ident = "UserId 1" and is_username = False
        and after_date = None and images = "[]" and papi = timeout_api,
        THEN conjunct2, THEN conjunct1] h1 e
    have a: "\<exists>s'. get_posts_loop timeout_api no_dates (UserId 1) False None None [] fetch_start = Some ([], s')
           \<and> page_sleeps (f_trace s') = [2, 4, 6, 8, 10]" by auto
    from page_retry_then_partial_result [where s = fetch_start and cur = None
        and fromisoformat = no_dates and ident = "UserId 1" and is_username = False
        and after_date = None and images = "[]" and api = gateway_api,
        THEN conjunct2, THEN conjunct2, THEN conjunct1] h2 e
    have b: "\<exists>s'. get_images_loop gateway_api no_dates (UserId 1) False None None [] fetch_start = Some ([], s')
           \<and> page_sleeps (f_trace s') = [5, 10, 15, 20]" by auto
    from page_retry_then_partial_result [where s = fetch_start and cur = None
        and fromisoformat = no_dates and ident = "UserId 1" and is_username = False
        and after_date = None and images = "[]" and api = timeout_api,
        THEN conjunct2, THEN conjunct2, THEN conjunct2] h3 e
    have c: "\<exists>s'. get_collection_images_loop timeout_api None [] fetch_start = Some ([], s')
           \<and> page_sleeps (f_trace s') = []" by auto
    from a b c show ?thesis by blast
  qed
  from first second show ?thesis by (rule conjI)
qed

text \<open>
  C7, as stated, fails for network failures: when every page request times out,
  \<open>get_posts\<close> sleeps 2, 4, 6, 8 and 10 seconds, and \<open>get_images\<close> and
  \<open>get_collection_images\<close> do not sleep at all between their five attempts.
\<close>

theorem network_failure_backoff_differs:
  "map_option (\<lambda>r. (fst r, f_calls (snd r), page_sleeps (f_trace (snd r))))
       (get_posts timeout_api no_dates (UserId 1) False None)
     = Some ([], 5, [2, 4, 6, 8, 10])
   \<and> map_option (\<lambda>r. (fst r, f_calls (snd r), page_sleeps (f_trace (snd r))))
       (get_images timeout_api no_dates (UserId 1) False None)
     = Some (Inr [], 5, [])
   \<and> map_option (\<lambda>r. (fst r, f_calls (snd r), page_sleeps (f_trace (snd r))))
       (get_collection_images timeout_api)
     = Some ([], 5, [])"
proof -
  have sc: "sent_cursor None = None" by (simp add: sent_cursor_def cursor_truthy_def)
  have p: "fetch_page posts_on_exception timeout_api None [0..<page_retries] fetch_start
           = (None, \<lparr>f_calls = 5, f_trace = [PageJitter, PageGet None, PageSleep 2,
                 PageJitter, PageGet None, PageSleep 4, PageJitter, PageGet None, PageSleep 6,
                 PageJitter, PageGet None, PageSleep 8, PageJitter, PageGet None, PageSleep 10]\<rparr>)"
    by (simp add: five_attempts api_get_def page_jitter_def page_sleep_def fetch_start_def
        timeout_api_def sc posts_on_exception_def)
  have i: "fetch_page images_on_exception timeout_api None [0..<page_retries] fetch_start
           = (None, \<lparr>f_calls = 5, f_trace = [PageJitter, PageGet None,
                 PageJitter, PageGet None, PageJitter, PageGet None,
                 PageJitter, PageGet None, PageJitter, PageGet None]\<rparr>)"
    by (simp add: five_attempts api_get_def page_jitter_def page_sleep_def fetch_start_def
        timeout_api_def sc images_on_exception_def startswith_def)
  have "get_posts timeout_api no_dates (UserId 1) False None
        = Some ([], \<lparr>f_calls = 5, f_trace = [PageJitter, PageGet None, PageSleep 2,
                 PageJitter, PageGet None, PageSleep 4, PageJitter, PageGet None, PageSleep 6,
                 PageJitter, PageGet None, PageSleep 8, PageJitter, PageGet None, PageSleep 10]\<rparr>)"
    unfolding get_posts_def by (subst get_posts_loop.simps) (simp add: p)
  moreover have "get_images timeout_api no_dates (UserId 1) False None
        = Some (Inr [], \<lparr>f_calls = 5, f_trace = [PageJitter, PageGet None,
                 PageJitter, PageGet None, PageJitter, PageGet None,
                 PageJitter, PageGet None, PageJitter, PageGet None]\<rparr>)"
    unfolding get_images_def by (subst get_images_loop.simps) (simp add: i sort_newest_def)
  moreover have "get_collection_images timeout_api
        = Some ([], \<lparr>f_calls = 5, f_trace = [PageJitter, PageGet None,
                 PageJitter, PageGet None, PageJitter, PageGet None,
                 PageJitter, PageGet None, PageJitter, PageGet None]\<rparr>)"
    unfolding get_collection_images_def by (subst get_collection_images_loop.simps) (simp add: i)
  ultimately show ?thesis by simp
qed

subsection \<open>A repeated cursor\<close>

lemma stuck_page:
  "fetch_page images_on_exception stuck_api cur [0..<page_retries] s
   = (Some (Page [png_item] (Some (CStr ''c''))),
      s\<lparr>f_calls := f_calls s + 1, f_trace := f_trace s @ [PageJitter, PageGet (sent_cursor cur)]\<rparr>)"
  by (simp add: five_attempts api_get_def page_jitter_def stuck_api_def)

lemma stuck_posts_page:
  "fetch_page posts_on_exception stuck_posts cur [0..<page_retries] s
   = (Some (Page [one_post] (Some (CStr ''c''))),
      s\<lparr>f_calls := f_calls s + 1, f_trace := f_trace s @ [PageJitter, PageGet (sent_cursor cur)]\<rparr>)"
  by (simp add: five_attempts api_get_def page_jitter_def stuck_posts_def)

lemma get_images_loop_stuck:
  assumes "get_images_loop api fromisoformat ident is_username after_date cur images s = Some y"
  shows "api \<noteq> stuck_api"
proof (rule get_images_loop.raw_induct
    [where P = "\<lambda>api fromisoformat ident is_username after_date cur images s y. api \<noteq> stuck_api",
     OF _ assms])
  fix f :: "item api \<Rightarrow> (string \<Rightarrow> int option) \<Rightarrow> ident \<Rightarrow> bool \<Rightarrow> int option \<Rightarrow> cursor option
     \<Rightarrow> item list \<Rightarrow> fetch_state \<Rightarrow> (item list \<times> fetch_state) option"
  fix api fromisoformat ident is_username after_date cur images s y
  assume IH: "\<And>api fromisoformat ident is_username after_date cur images s y.
        f api fromisoformat ident is_username after_date cur images s = Some y \<Longrightarrow> api \<noteq> stuck_api"
  assume eq: "(case fetch_page images_on_exception api cur [0..<page_retries] s of
        (None, s1) \<Rightarrow> Some (images, s1)
      | (Some pg, s1) \<Rightarrow>
          (let images' = images
                 @ filter_images fromisoformat ident is_username after_date (items pg)
           in if \<not> cursor_truthy (nextCursor pg) then Some (images', s1)
              else if date_stop fromisoformat after_date
                        (map (\<lambda>img. dict_get (i_createdAt img)) (items pg))
                then Some (images', s1)
              else f api fromisoformat ident is_username after_date
                     (nextCursor pg) images' s1)) = Some y"
  show "api \<noteq> stuck_api"
  proof
    assume a: "api = stuck_api"
    have nd: "\<not> date_stop fromisoformat after_date (map (\<lambda>img. dict_get (i_createdAt img)) [png_item])"
      by (simp add: date_stop_def older_def png_item_def dict_get_def truthy_def split: option.splits)
    from eq a nd have "\<exists>images' s1. f stuck_api fromisoformat ident is_username after_date
                      (Some (CStr ''c'')) images' s1 = Some y"
      by (auto simp: stuck_page Let_def cursor_truthy_def)
    with IH show False by blast
  qed
qed

text \<open>
  C1. Against an endpoint that answers every request with the same non-empty page and
  the same \<open>nextCursor\<close>, \<open>get_images\<close> does not return, whatever the query and the
  date bound: it has no test of the new cursor against the one just used. (\<open>get_posts\<close>
  and \<open>get_collection_images\<close> have the test and return after the page that repeats
  the cursor, see \<open>siblings_stop_on_repeated_cursor\<close> and
  \<open>siblings_cycle_guard\<close>.)
\<close>

theorem get_images_never_returns_on_repeated_cursor:
  "get_images stuck_api fromisoformat ident is_username after_date = None"
proof (cases "get_images_loop stuck_api fromisoformat ident is_username after_date None [] fetch_start")
  case None
  then show ?thesis by (simp add: get_images_def)
next
  case (Some y)
  from get_images_loop_stuck [OF Some] show ?thesis by simp
qed

lemma siblings_cycle_guard:
  "fetch_page posts_on_exception papi cur [0..<page_retries] s = (Some ppg, s1) \<Longrightarrow>
     nextCursor ppg = cur \<Longrightarrow>
     \<exists>out. get_posts_loop papi fromisoformat ident is_username after_date cur itms s = Some (out, s1)"
  "fetch_page images_on_exception api cur [0..<page_retries] s = (Some pg, s1) \<Longrightarrow>
     nextCursor pg = cur \<Longrightarrow>
     \<exists>out. get_collection_images_loop api cur images s = Some (out, s1)"
  by (subst get_posts_loop.simps, simp add: Let_def)
     (subst get_collection_images_loop.simps, simp)

lemma siblings_stop_on_repeated_cursor:
  "map_option (\<lambda>r. (length (fst r), page_requests (f_trace (snd r))))
       (get_posts stuck_posts no_dates (UserId 1) False None)
     = Some (2, [None, Some (CStr ''c'')])"
  "map_option (\<lambda>r. (length (fst r), page_requests (f_trace (snd r))))
       (get_collection_images stuck_api)
     = Some (2, [None, Some (CStr ''c'')])"
proof -
  have sc: "sent_cursor (Some (CStr ''c'')) = Some (CStr ''c'')" "sent_cursor None = None"
    by (simp_all add: sent_cursor_def cursor_truthy_def)
  have ct: "cursor_truthy (Some (CStr ''c''))" by (simp add: cursor_truthy_def)
  have ds: "\<not> date_stop no_dates None ds" for ds by (simp add: date_stop_def older_def)
  have ne: "one_post \<noteq> \<lparr>p_id = a, p_userId = b, p_createdAt = c, p_publishedAt = d, p_images = []\<rparr>"
    for a b c d by (simp add: one_post_def)
  show "map_option (\<lambda>r. (length (fst r), page_requests (f_trace (snd r))))
       (get_posts stuck_posts no_dates (UserId 1) False None)
     = Some (2, [None, Some (CStr ''c'')])"
    unfolding get_posts_def
    apply (subst get_posts_loop.simps)
    apply (simp add: stuck_posts_page Let_def ct ds)
    apply (subst get_posts_loop.simps)
    apply (simp add: stuck_posts_page Let_def ct ds sc fetch_start_def filter_posts_def
        owner_mismatch_def older_def extract_images_def one_post_def)
    done
  show "map_option (\<lambda>r. (length (fst r), page_requests (f_trace (snd r))))
       (get_collection_images stuck_api)
     = Some (2, [None, Some (CStr ''c'')])"
    unfolding get_collection_images_def
    apply (subst get_collection_images_loop.simps)
    apply (simp add: stuck_page Let_def ct)
    apply (subst get_collection_images_loop.simps)
    apply (simp add: stuck_page Let_def ct sc fetch_start_def)
    done
qed

lemma owner_mismatch_iff:
  "owner_mismatch is_username ident owner = (\<not> (is_username \<or> owned_by ident owner))"
  by (auto simp: owner_mismatch_def owned_by_def differs_def split: option.splits ident.splits)

lemma filter_images_spec:
  "filter_images pd ident is_username after batch
   = filter (\<lambda>x. (is_username \<or> owned_by ident (i_userId x))
                 \<and> \<not> older pd after (dict_get (i_createdAt x))) batch"
  by (simp add: filter_images_def owner_mismatch_iff)

lemma filter_posts_spec:
  "filter_posts pd ident is_username after batch
   = filter (\<lambda>p. (is_username \<or> owned_by ident (p_userId p))
                 \<and> \<not> older pd after (post_date p)) batch"
  by (simp add: filter_posts_def owner_mismatch_iff)

lemma extract_keeps_owner: "map i_userId (extract_images p) = map i_userId (p_images p)"
  by (simp add: extract_images_def Let_def)

lemma first_try:
  assumes "answers api (f_calls s) cur pg"
  shows "fetch_page h api cur [0..<page_retries] s
         = (Some pg, s\<lparr>f_calls := f_calls s + 1,
                       f_trace := f_trace s @ [PageJitter, PageGet (sent_cursor cur)]\<rparr>)"
  using assms unfolding five_attempts
  by (cases "api (f_calls s) (sent_cursor cur)")
     (auto simp: answers_def api_get_def page_jitter_def)

lemma get_images_loop_pages:
  assumes "image_pages api pd after k cur pgs" and "k = f_calls s"
  shows "\<exists>s'. get_images_loop api pd ident is_username after cur images s
                = Some (images @ concat (map (\<lambda>pg. filter_images pd ident is_username after (items pg)) pgs), s')
              \<and> f_calls s' = f_calls s + length pgs"
  using assms
proof (induction api pd after k cur pgs arbitrary: s images rule: image_pages.induct)
  case (1 api pd after k cur)
  then show ?case by simp
next
  case (2 api pd after k cur pg)
  then have a: "answers api (f_calls s) cur pg" and st: "images_stop pd after pg" by simp_all
  show ?case
    using st
    by (subst get_images_loop.simps) (auto simp: first_try [OF a] Let_def images_stop_def)
next
  case (3 api pd after k cur pg nxt rest)
  then have a: "answers api (f_calls s) cur pg" and ns: "\<not> images_stop pd after pg"
    and r: "image_pages api pd after (Suc k) (nextCursor pg) (nxt # rest)" by simp_all
  define s1 where "s1 = s\<lparr>f_calls := f_calls s + 1,
                          f_trace := f_trace s @ [PageJitter, PageGet (sent_cursor cur)]\<rparr>"
  have k1: "Suc k = f_calls s1" using "3.prems"(2) by (simp add: s1_def)
  from "3.IH" [OF r k1, of "images @ filter_images pd ident is_username after (items pg)"]
  obtain s' where
    n: "get_images_loop api pd ident is_username after (nextCursor pg)
          (images @ filter_images pd ident is_username after (items pg)) s1
        = Some ((images @ filter_images pd ident is_username after (items pg))
                @ concat (map (\<lambda>pg. filter_images pd ident is_username after (items pg)) (nxt # rest)), s')"
    and c: "f_calls s' = f_calls s1 + length (nxt # rest)" by blast
  have "get_images_loop api pd ident is_username after cur images s
        = get_images_loop api pd ident is_username after (nextCursor pg)
            (images @ filter_images pd ident is_username after (items pg)) s1"
    using ns
    by (subst get_images_loop.simps) (simp add: first_try [OF a] Let_def images_stop_def s1_def)
  with n c show ?case by (simp add: s1_def)
qed

lemma get_posts_loop_pages:
  assumes "post_pages api pd after k cur pgs" and "k = f_calls s"
  shows "\<exists>s'. get_posts_loop api pd ident is_username after cur itms s
                = Some (itms @ concat (map (\<lambda>pg. concat (map extract_images
                                   (filter_posts pd ident is_username after (items pg)))) pgs), s')
              \<and> f_calls s' = f_calls s + length pgs"
  using assms
proof (induction api pd after k cur pgs arbitrary: s itms rule: post_pages.induct)
  case (1 api pd after k cur)
  then show ?case by simp
next
  case (2 api pd after k cur pg)
  then have a: "answers api (f_calls s) cur pg" and st: "posts_stop pd after cur pg" by simp_all
  show ?case
  proof (cases "items pg = []")
    case True
    then show ?thesis
      by (subst get_posts_loop.simps) (simp add: first_try [OF a] filter_posts_def)
  next
    case False
    with st show ?thesis
      by (subst get_posts_loop.simps) (auto simp: first_try [OF a] Let_def posts_stop_def)
  qed
next
  case (3 api pd after k cur pg nxt rest)
  then have a: "answers api (f_calls s) cur pg" and ns: "\<not> posts_stop pd after cur pg"
    and r: "post_pages api pd after (Suc k) (nextCursor pg) (nxt # rest)" by simp_all
  define s1 where "s1 = s\<lparr>f_calls := f_calls s + 1,
                          f_trace := f_trace s @ [PageJitter, PageGet (sent_cursor cur)]\<rparr>"
  define itms' where "itms' = itms @ concat (map extract_images
                                 (filter_posts pd ident is_username after (items pg)))"
  have k1: "Suc k = f_calls s1" using "3.prems"(2) by (simp add: s1_def)
  from "3.IH" [OF r k1, of itms']
  obtain s' where
    n: "get_posts_loop api pd ident is_username after (nextCursor pg) itms' s1
        = Some (itms' @ concat (map (\<lambda>pg. concat (map extract_images
                                   (filter_posts pd ident is_username after (items pg)))) (nxt # rest)), s')"
    and c: "f_calls s' = f_calls s1 + length (nxt # rest)" by blast
  have "get_posts_loop api pd ident is_username after cur itms s
        = get_posts_loop api pd ident is_username after (nextCursor pg) itms' s1"
    using ns
    by (subst get_posts_loop.simps)
       (simp add: first_try [OF a] Let_def posts_stop_def s1_def itms'_def)
  with n c show ?case by (simp add: s1_def itms'_def)
qed

text \<open>
  C8, as stated, fails. \<open>get_posts\<close> tests the owner id of a post, not of the images
  it unpacks from the post: queried by the id 1, it returns an image whose own
  \<open>userId\<close> is 99 when the post that holds it carries no owner id. And an item without
  owner id is not always kept: with a date bound, \<open>get_images\<close> drops one that is
  older than the bound.
\<close>

theorem ownership_claim_fails:
  "map_option (\<lambda>r. map i_userId (fst r)) (get_posts foreign_post_api no_dates (UserId 1) False None)
     = Some [Some 99]
   \<and> i_userId orphan_old = None
   \<and> map_option fst (get_images orphan_api two_dates (UserId 1) False (Some 2022)) = Some (Inr [])"
proof -
  have sc: "sent_cursor None = None" by (simp add: sent_cursor_def cursor_truthy_def)
  have p: "fetch_page posts_on_exception foreign_post_api None [0..<page_retries] fetch_start
           = (Some (Page [kept_post] None), \<lparr>f_calls = 1, f_trace = [PageJitter, PageGet None]\<rparr>)"
    by (simp add: five_attempts api_get_def page_jitter_def fetch_start_def foreign_post_api_def sc)
  have a: "get_posts foreign_post_api no_dates (UserId 1) False None
           = Some (extract_images kept_post, \<lparr>f_calls = 1, f_trace = [PageJitter, PageGet None]\<rparr>)"
    unfolding get_posts_def
    by (subst get_posts_loop.simps)
       (simp add: p Let_def cursor_truthy_def filter_posts_def owner_mismatch_def older_def
          kept_post_def)
  have b: "map i_userId (extract_images kept_post) = [Some 99]"
    by (simp add: extract_keeps_owner kept_post_def foreign_item_def)
  have i: "fetch_page images_on_exception orphan_api None [0..<page_retries] fetch_start
           = (Some (Page [orphan_old] None), \<lparr>f_calls = 1, f_trace = [PageJitter, PageGet None]\<rparr>)"
    by (simp add: five_attempts api_get_def page_jitter_def fetch_start_def orphan_api_def sc)
  have old: "older two_dates (Some 2022) (dict_get (i_createdAt orphan_old))"
    by (simp add: older_def orphan_old_def dict_get_def truthy_def fmt_str_def replace_Z_def
        two_dates_def)
  have c: "get_images orphan_api two_dates (UserId 1) False (Some 2022)
           = Some (Inr [], \<lparr>f_calls = 1, f_trace = [PageJitter, PageGet None]\<rparr>)"
    unfolding get_images_def
    by (subst get_images_loop.simps)
       (simp add: i Let_def cursor_truthy_def filter_images_def old sort_newest_def)
  from a b c show ?thesis by (simp add: orphan_old_def png_item_def)
qed

text \<open>
  C8, amended. The ownership test is a test of each entry of a page: of each image in
  \<open>get_images\<close>, of each post in \<open>get_posts\<close>. Queried by numeric id, an entry passes
  it exactly when its owner id is absent or equal to the queried id; queried by name,
  every entry passes. A page keeps exactly the entries that pass the test and are not
  older than the date bound, if one is set. The images unpacked from a kept post keep
  their own owner ids, which are not tested.

  For a query by name or by a number: whenever a page arrives, after however many
  attempts, the loop appends the kept images (in \<open>get_posts\<close>: the images of the kept
  posts) to its result and goes on with the next cursor, or stops after that page.

  For the whole run, when the endpoint serves the pages \<open>pgs\<close>, each at the first
  request, up to the first page after which the loop stops: \<open>get_images\<close> makes one
  request per page and returns the kept images of all the pages, sorted (or raises
  the \<open>TypeError\<close> of the sort, when it has to compare a \<open>createdAt\<close> that is \<open>null\<close>);
  \<open>get_posts\<close> makes one request per page and returns the images of the kept posts of
  all the pages, in order.
\<close>

theorem ownership_filter:
  "filter_images pd ident is_username after batch
     = filter (\<lambda>x. (is_username \<or> owned_by ident (i_userId x))
                   \<and> \<not> older pd after (dict_get (i_createdAt x))) batch
   \<and> filter_posts pd ident is_username after posts
     = filter (\<lambda>p. (is_username \<or> owned_by ident (p_userId p))
                   \<and> \<not> older pd after (post_date p)) posts
   \<and> map i_userId (extract_images a_post) = map i_userId (p_images a_post)
   \<and> ((is_username \<or> ident = UserId n)
         \<and> fetch_page images_on_exception api cur [0..<page_retries] s = (Some pg, s1) \<longrightarrow>
        get_images_loop api pd ident is_username after cur images s
          = (let images' = images
                   @ filter (\<lambda>x. (is_username \<or> owned_by ident (i_userId x))
                                  \<and> \<not> older pd after (dict_get (i_createdAt x))) (items pg)
             in if images_stop pd after pg then Some (images', s1)
                else get_images_loop api pd ident is_username after (nextCursor pg) images' s1))
   \<and> ((is_username \<or> ident = UserId n)
         \<and> fetch_page posts_on_exception papi cur [0..<page_retries] s = (Some ppg, s1) \<longrightarrow>
        get_posts_loop papi pd ident is_username after cur images s
          = (let images' = images
                   @ concat (map extract_images
                       (filter (\<lambda>p. (is_username \<or> owned_by ident (p_userId p))
                                    \<and> \<not> older pd after (post_date p)) (items ppg)))
             in if posts_stop pd after cur ppg then Some (images', s1)
                else get_posts_loop papi pd ident is_username after (nextCursor ppg) images' s1))
   \<and> ((is_username \<or> ident = UserId n) \<and> image_pages api pd after 0 None pgs \<longrightarrow>
        (\<exists>s. get_images api pd ident is_username after
                = Some (sort_newest (concat (map
                     (\<lambda>pg. filter (\<lambda>x. (is_username \<or> owned_by ident (i_userId x))
                                       \<and> \<not> older pd after (dict_get (i_createdAt x))) (items pg))
                     pgs)), s)
              \<and> f_calls s = length pgs))
   \<and> ((is_username \<or> ident = UserId n) \<and> post_pages papi pd after 0 None ppgs \<longrightarrow>
        (\<exists>s. get_posts papi pd ident is_username after
                = Some (concat (map
                     (\<lambda>pg. concat (map extract_images
                              (filter (\<lambda>p. (is_username \<or> owned_by ident (p_userId p))
                                           \<and> \<not> older pd after (post_date p)) (items pg))))
                     ppgs), s)
              \<and> f_calls s = length ppgs))"
proof -
  have I: "\<exists>s. get_images api pd ident is_username after
                = Some (sort_newest (concat (map
                     (\<lambda>pg. filter (\<lambda>x. (is_username \<or> owned_by ident (i_userId x))
                                       \<and> \<not> older pd after (dict_get (i_createdAt x))) (items pg))
                     pgs)), s)
              \<and> f_calls s = length pgs"
    if "image_pages api pd after 0 None pgs"
    using get_images_loop_pages [OF that, of fetch_start ident is_username "[]"]
    by (auto simp: get_images_def fetch_start_def filter_images_spec)
  have P: "\<exists>s. get_posts papi pd ident is_username after
                = Some (concat (map
                     (\<lambda>pg. concat (map extract_images
                              (filter (\<lambda>p. (is_username \<or> owned_by ident (p_userId p))
                                           \<and> \<not> older pd after (post_date p)) (items pg))))
                     ppgs), s)
              \<and> f_calls s = length ppgs"
    if "post_pages papi pd after 0 None ppgs"
    using get_posts_loop_pages [OF that, of fetch_start ident is_username "[]"]
    by (auto simp: get_posts_def fetch_start_def filter_posts_spec)
  have SI: "get_images_loop api pd ident is_username after cur images s
          = (let images' = images
                   @ filter (\<lambda>x. (is_username \<or> owned_by ident (i_userId x))
                                  \<and> \<not> older pd after (dict_get (i_createdAt x))) (items pg)
             in if images_stop pd after pg then Some (images', s1)
                else get_images_loop api pd ident is_username after (nextCursor pg) images' s1)"
    if "fetch_page images_on_exception api cur [0..<page_retries] s = (Some pg, s1)"
    by (subst get_images_loop.simps)
       (simp add: that Let_def images_stop_def filter_images_spec)
  have SP: "get_posts_loop papi pd ident is_username after cur images s
          = (let images' = images
                   @ concat (map extract_images
                       (filter (\<lambda>p. (is_username \<or> owned_by ident (p_userId p))
                                    \<and> \<not> older pd after (post_date p)) (items ppg)))
             in if posts_stop pd after cur ppg then Some (images', s1)
                else get_posts_loop papi pd ident is_username after (nextCursor ppg) images' s1)"
    if "fetch_page posts_on_exception papi cur [0..<page_retries] s = (Some ppg, s1)"
    by (subst get_posts_loop.simps)
       (auto simp: that Let_def posts_stop_def filter_posts_spec)
  have F: "filter_images pd ident is_username after batch
     = filter (\<lambda>x. (is_username \<or> owned_by ident (i_userId x))
                   \<and> \<not> older pd after (dict_get (i_createdAt x))) batch"
    "filter_posts pd ident is_username after posts
     = filter (\<lambda>p. (is_username \<or> owned_by ident (p_userId p))
                   \<and> \<not> older pd after (post_date p)) posts"
    by (rule filter_images_spec, rule filter_posts_spec)
  from F extract_keeps_owner [of a_post] SI SP I P show ?thesis by blast
qed

lemma two_pages_served:
  "image_pages two_pages two_dates (Some 2022) 0 None
     [Page [png_item, foreign_item, own_item] (Some (CStr ''c'')), Page [old_item] None]"
  by (simp add: two_pages_def answers_def sent_cursor_def cursor_truthy_def images_stop_def
      date_stop_def older_def own_item_def dict_get_def truthy_def fmt_str_def replace_Z_def
      two_dates_def)

lemma post_page_served:
  "post_pages post_api two_dates (Some 2022) 0 None [Page [kept_post, foreign_post, old_post] None]"
  by (simp add: post_api_def answers_def sent_cursor_def cursor_truthy_def posts_stop_def)

lemma example_dates:
  "older two_dates (Some 2022) (dict_get (i_createdAt old_item))"
  "\<not> older two_dates (Some 2022) (dict_get (i_createdAt own_item))"
  "\<not> older two_dates (Some 2022) (dict_get (i_createdAt png_item))"
  "\<not> older two_dates (Some 2022) (dict_get (i_createdAt foreign_item))"
  "older two_dates (Some 2022) (post_date old_post)"
  "\<not> older two_dates (Some 2022) (post_date kept_post)"
  "\<not> older two_dates (Some 2022) (post_date foreign_post)"
  by (simp_all add: older_def old_item_def own_item_def png_item_def foreign_item_def
      old_post_def kept_post_def foreign_post_def post_date_def py_or_def
      dict_get_def truthy_def fmt_str_def replace_Z_def two_dates_def)

lemma example_owners:
  "i_userId png_item = None" "i_userId foreign_item = Some 99" "i_userId own_item = Some 1"
  "i_userId old_item = Some 1"
  "p_userId kept_post = None" "p_userId foreign_post = Some 99" "p_userId old_post = Some 1"
  by (simp_all add: png_item_def foreign_item_def own_item_def old_item_def kept_post_def
      foreign_post_def old_post_def)

theorem ownership_filter_witness:
  "(image_pages two_pages two_dates (Some 2022) 0 None
      [Page [png_item, foreign_item, own_item] (Some (CStr ''c'')), Page [old_item] None]
    \<and> (\<exists>s. get_images two_pages two_dates (UserId 1) False (Some 2022)
              = Some (Inr [own_item, png_item], s) \<and> f_calls s = 2)
    \<and> (\<exists>s. get_images two_pages two_dates (UserName ''bob'') True (Some 2022)
              = Some (Inr [own_item, png_item, foreign_item], s) \<and> f_calls s = 2))
   \<and> (post_pages post_api two_dates (Some 2022) 0 None [Page [kept_post, foreign_post, old_post] None]
    \<and> (\<exists>s. get_posts post_api two_dates (UserId 1) False (Some 2022)
              = Some (extract_images kept_post, s) \<and> f_calls s = 1)
    \<and> (\<exists>s. get_posts post_api two_dates (UserName ''bob'') True (Some 2022)
              = Some (extract_images kept_post @ extract_images foreign_post, s) \<and> f_calls s = 1)
    \<and> map i_userId (extract_images kept_post) = [Some 99])
   \<and> (fetch_page images_on_exception slow_api None [0..<page_retries] fetch_start
        = (Some (Page [png_item, foreign_item] None),
           \<lparr>f_calls = 3,
            f_trace = [PageJitter, PageGet None, PageSleep 5, PageJitter, PageGet None, PageSleep 10,
                       PageJitter, PageGet None]\<rparr>)
    \<and> get_images_loop slow_api no_dates (UserId 1) False None None [] fetch_start
        = Some ([png_item],
           \<lparr>f_calls = 3,
            f_trace = [PageJitter, PageGet None, PageSleep 5, PageJitter, PageGet None, PageSleep 10,
                       PageJitter, PageGet None]\<rparr>))"
proof -
  have s1: "sort_newest [png_item, own_item] = Inr [own_item, png_item]"
    and s2: "sort_newest [png_item, foreign_item, own_item] = Inr [own_item, png_item, foreign_item]"
    by (simp_all add: sort_newest_def created_key_def png_item_def foreign_item_def own_item_def)
  have o: "owned_by (UserId 1) None" "\<not> owned_by (UserId 1) (Some 99)" "owned_by (UserId 1) (Some 1)"
    by (simp_all add: owned_by_def)
  have k: "map i_userId (p_images kept_post) = [Some 99]"
    by (simp add: kept_post_def foreign_item_def)
  have first: "image_pages two_pages two_dates (Some 2022) 0 None
      [Page [png_item, foreign_item, own_item] (Some (CStr ''c'')), Page [old_item] None]
    \<and> (\<exists>s. get_images two_pages two_dates (UserId 1) False (Some 2022)
              = Some (Inr [own_item, png_item], s) \<and> f_calls s = 2)
    \<and> (\<exists>s. get_images two_pages two_dates (UserName ''bob'') True (Some 2022)
              = Some (Inr [own_item, png_item, foreign_item], s) \<and> f_calls s = 2)"
    using ownership_filter [where api = two_pages and pd = two_dates and after = "Some 2022"
        and pgs = "[Page [png_item, foreign_item, own_item] (Some (CStr ''c'')), Page [old_item] None]"
        and ident = "UserId 1" and n = 1 and is_username = False, THEN conjunct2, THEN conjunct2,
        THEN conjunct2, THEN conjunct2, THEN conjunct2, THEN conjunct1]
      ownership_filter [where api = two_pages and pd = two_dates and after = "Some 2022"
        and pgs = "[Page [png_item, foreign_item, own_item] (Some (CStr ''c'')), Page [old_item] None]"
        and ident = "UserName ''bob''" and is_username = True, THEN conjunct2, THEN conjunct2,
        THEN conjunct2, THEN conjunct2, THEN conjunct2, THEN conjunct1]
      two_pages_served
    by (simp add: example_dates example_owners o s1 s2 numeral_2_eq_2)
  have second: "post_pages post_api two_dates (Some 2022) 0 None [Page [kept_post, foreign_post, old_post] None]
    \<and> (\<exists>s. get_posts post_api two_dates (UserId 1) False (Some 2022)
              = Some (extract_images kept_post, s) \<and> f_calls s = 1)
    \<and> (\<exists>s. get_posts post_api two_dates (UserName ''bob'') True (Some 2022)
              = Some (extract_images kept_post @ extract_images foreign_post, s) \<and> f_calls s = 1)
    \<and> map i_userId (extract_images kept_post) = [Some 99]"
    using ownership_filter [where papi = post_api and pd = two_dates and after = "Some 2022"
        and ppgs = "[Page [kept_post, foreign_post, old_post] None]"
        and ident = "UserId 1" and is_username = False and a_post = kept_post,
        THEN conjunct2, THEN conjunct2, THEN conjunct1]
      ownership_filter [where papi = post_api and pd = two_dates and after = "Some 2022"
        and ppgs = "[Page [kept_post, foreign_post, old_post] None]"
        and ident = "UserId 1" and n = 1 and is_username = False,
        THEN conjunct2, THEN conjunct2, THEN conjunct2, THEN conjunct2, THEN conjunct2,
        THEN conjunct2]
      ownership_filter [where papi = post_api and pd = two_dates and after = "Some 2022"
        and ppgs = "[Page [kept_post, foreign_post, old_post] None]"
        and ident = "UserName ''bob''" and is_username = True,
        THEN conjunct2, THEN conjunct2, THEN conjunct2, THEN conjunct2, THEN conjunct2,
        THEN conjunct2]
      post_page_served k
    by (simp add: example_dates example_owners o)
  have third: "fetch_page images_on_exception slow_api None [0..<page_retries] fetch_start
        = (Some (Page [png_item, foreign_item] None),
           \<lparr>f_calls = 3,
            f_trace = [PageJitter, PageGet None, PageSleep 5, PageJitter, PageGet None, PageSleep 10,
                       PageJitter, PageGet None]\<rparr>)
    \<and> get_images_loop slow_api no_dates (UserId 1) False None None [] fetch_start
        = Some ([png_item],
           \<lparr>f_calls = 3,
            f_trace = [PageJitter, PageGet None, PageSleep 5, PageJitter, PageGet None, PageSleep 10,
                       PageJitter, PageGet None]\<rparr>)"
  proof -
    have sc: "sent_cursor None = None" by (simp add: sent_cursor_def cursor_truthy_def)
    have fp: "fetch_page images_on_exception slow_api None [0..<page_retries] fetch_start
        = (Some (Page [png_item, foreign_item] None),
           \<lparr>f_calls = 3,
            f_trace = [PageJitter, PageGet None, PageSleep 5, PageJitter, PageGet None, PageSleep 10,
                       PageJitter, PageGet None]\<rparr>)"
      by (simp add: five_attempts api_get_def page_jitter_def page_sleep_def fetch_start_def
          slow_api_def sc)
    from ownership_filter [where api = slow_api and cur = None and s = fetch_start
        and pg = "Page [png_item, foreign_item] None" and pd = no_dates and after = None
        and ident = "UserId 1" and n = 1 and is_username = False and images = "[]",
        THEN conjunct2, THEN conjunct2, THEN conjunct2, THEN conjunct1] fp
    have "get_images_loop slow_api no_dates (UserId 1) False None None [] fetch_start
        = Some ([png_item],
           \<lparr>f_calls = 3,
            f_trace = [PageJitter, PageGet None, PageSleep 5, PageJitter, PageGet None, PageSleep 10,
                       PageJitter, PageGet None]\<rparr>)"
      by (simp add: Let_def images_stop_def cursor_truthy_def older_def example_owners o)
    with fp show ?thesis by simp
  qed
  from first second third show ?thesis by blast
qed

text \<open>
  With retries as well: on the same replies, the pagination loop of \<open>get_images\<close> run
  by id returns the items of the run by name that pass the ownership test, and it ends
  if and only if that run ends.
\<close>

lemma filter_images_by_id:
  "filter_images pd ident False after batch
   = filter (\<lambda>x. owned_by ident (i_userId x)) (filter_images pd who True after batch)"
  by (auto simp: filter_images_spec intro: filter_cong)

lemma by_name_to_by_id:
  assumes "get_images_loop api pd who is_username after cur images s = Some y"
  shows "is_username \<longrightarrow>
         get_images_loop api pd ident False after cur (filter (\<lambda>x. owned_by ident (i_userId x)) images) s
         = Some (filter (\<lambda>x. owned_by ident (i_userId x)) (fst y), snd y)"
proof (rule get_images_loop.raw_induct
    [where P = "\<lambda>api pd who is_username after cur images s y. is_username \<longrightarrow>
         get_images_loop api pd ident False after cur (filter (\<lambda>x. owned_by ident (i_userId x)) images) s
         = Some (filter (\<lambda>x. owned_by ident (i_userId x)) (fst y), snd y)", OF _ assms])
  fix f :: "item api \<Rightarrow> (string \<Rightarrow> int option) \<Rightarrow> ident \<Rightarrow> bool \<Rightarrow> int option \<Rightarrow> cursor option
     \<Rightarrow> item list \<Rightarrow> fetch_state \<Rightarrow> (item list \<times> fetch_state) option"
  fix api pd who is_username after cur images s y
  assume IH: "\<And>api pd who is_username after cur images s y.
        f api pd who is_username after cur images s = Some y \<Longrightarrow>
        is_username \<longrightarrow>
         get_images_loop api pd ident False after cur (filter (\<lambda>x. owned_by ident (i_userId x)) images) s
         = Some (filter (\<lambda>x. owned_by ident (i_userId x)) (fst y), snd y)"
  assume eq: "(case fetch_page images_on_exception api cur [0..<page_retries] s of
        (None, s1) \<Rightarrow> Some (images, s1)
      | (Some pg, s1) \<Rightarrow>
          (let images' = images @ filter_images pd who is_username after (items pg)
           in if \<not> cursor_truthy (nextCursor pg) then Some (images', s1)
              else if date_stop pd after (map (\<lambda>img. dict_get (i_createdAt img)) (items pg))
                then Some (images', s1)
              else f api pd who is_username after (nextCursor pg) images' s1)) = Some y"
  show "is_username \<longrightarrow>
         get_images_loop api pd ident False after cur (filter (\<lambda>x. owned_by ident (i_userId x)) images) s
         = Some (filter (\<lambda>x. owned_by ident (i_userId x)) (fst y), snd y)"
  proof
    assume u: is_username
    obtain r s1 where fp: "fetch_page images_on_exception api cur [0..<page_retries] s = (r, s1)"
      by (cases "fetch_page images_on_exception api cur [0..<page_retries] s")
    show "get_images_loop api pd ident False after cur (filter (\<lambda>x. owned_by ident (i_userId x)) images) s
         = Some (filter (\<lambda>x. owned_by ident (i_userId x)) (fst y), snd y)"
    proof (cases r)
      case None
      with eq fp have "y = (images, s1)" by simp
      then show ?thesis by (subst get_images_loop.simps) (simp add: fp None)
    next
      case (Some pg)
      define images' where "images' = images @ filter_images pd who True after (items pg)"
      have fi: "filter (\<lambda>x. owned_by ident (i_userId x)) images
                  @ filter_images pd ident False after (items pg)
                = filter (\<lambda>x. owned_by ident (i_userId x)) images'"
        by (simp add: images'_def filter_images_by_id [of pd ident after _ who])
      show ?thesis
      proof (cases "\<not> cursor_truthy (nextCursor pg) \<or> date_stop pd after (map (\<lambda>img. dict_get (i_createdAt img)) (items pg))")
        case True
        with eq fp Some u have "y = (images', s1)"
          by (auto simp: images'_def Let_def split: if_splits)
        with True show ?thesis
          by (subst get_images_loop.simps) (auto simp: fp Some fi Let_def)
      next
        case False
        with eq fp Some u have "f api pd who True after (nextCursor pg) images' s1 = Some y"
          by (auto simp: images'_def Let_def)
        from IH [OF this] have "get_images_loop api pd ident False after (nextCursor pg)
            (filter (\<lambda>x. owned_by ident (i_userId x)) images') s1
          = Some (filter (\<lambda>x. owned_by ident (i_userId x)) (fst y), snd y)" by simp
        with False show ?thesis
          by (subst get_images_loop.simps) (auto simp: fp Some fi Let_def)
      qed
    qed
  qed
qed

lemma by_id_to_by_name:
  assumes "get_images_loop api pd ident is_username after cur imgs s = Some y"
  shows "\<not> is_username \<longrightarrow> (\<forall>images. imgs = filter (\<lambda>x. owned_by ident (i_userId x)) images \<longrightarrow>
           (\<exists>out. get_images_loop api pd who True after cur images s = Some (out, snd y)
                  \<and> fst y = filter (\<lambda>x. owned_by ident (i_userId x)) out))"
proof (rule get_images_loop.raw_induct
    [where P = "\<lambda>api pd ident is_username after cur imgs s y.
        \<not> is_username \<longrightarrow> (\<forall>images. imgs = filter (\<lambda>x. owned_by ident (i_userId x)) images \<longrightarrow>
           (\<exists>out. get_images_loop api pd who True after cur images s = Some (out, snd y)
                  \<and> fst y = filter (\<lambda>x. owned_by ident (i_userId x)) out))", OF _ assms])
  fix f :: "item api \<Rightarrow> (string \<Rightarrow> int option) \<Rightarrow> ident \<Rightarrow> bool \<Rightarrow> int option \<Rightarrow> cursor option
     \<Rightarrow> item list \<Rightarrow> fetch_state \<Rightarrow> (item list \<times> fetch_state) option"
  fix api pd ident is_username after cur imgs s y
  assume IH: "\<And>api pd ident is_username after cur imgs s y.
        f api pd ident is_username after cur imgs s = Some y \<Longrightarrow>
        \<not> is_username \<longrightarrow> (\<forall>images. imgs = filter (\<lambda>x. owned_by ident (i_userId x)) images \<longrightarrow>
           (\<exists>out. get_images_loop api pd who True after cur images s = Some (out, snd y)
                  \<and> fst y = filter (\<lambda>x. owned_by ident (i_userId x)) out))"
  assume eq: "(case fetch_page images_on_exception api cur [0..<page_retries] s of
        (None, s1) \<Rightarrow> Some (imgs, s1)
      | (Some pg, s1) \<Rightarrow>
          (let images' = imgs @ filter_images pd ident is_username after (items pg)
           in if \<not> cursor_truthy (nextCursor pg) then Some (images', s1)
              else if date_stop pd after (map (\<lambda>img. dict_get (i_createdAt img)) (items pg))
                then Some (images', s1)
              else f api pd ident is_username after (nextCursor pg) images' s1)) = Some y"
  show "\<not> is_username \<longrightarrow> (\<forall>images. imgs = filter (\<lambda>x. owned_by ident (i_userId x)) images \<longrightarrow>
           (\<exists>out. get_images_loop api pd who True after cur images s = Some (out, snd y)
                  \<and> fst y = filter (\<lambda>x. owned_by ident (i_userId x)) out))"
  proof (intro impI allI)
    fix images
    assume u: "\<not> is_username" and im: "imgs = filter (\<lambda>x. owned_by ident (i_userId x)) images"
    obtain r s1 where fp: "fetch_page images_on_exception api cur [0..<page_retries] s = (r, s1)"
      by (cases "fetch_page images_on_exception api cur [0..<page_retries] s")
    show "\<exists>out. get_images_loop api pd who True after cur images s = Some (out, snd y)
                  \<and> fst y = filter (\<lambda>x. owned_by ident (i_userId x)) out"
    proof (cases r)
      case None
      with eq fp have y: "y = (imgs, s1)" by simp
      have "get_images_loop api pd who True after cur images s = Some (images, s1)"
        by (subst get_images_loop.simps) (simp add: fp None)
      with y im show ?thesis by simp
    next
      case (Some pg)
      define images' where "images' = images @ filter_images pd who True after (items pg)"
      have fi: "imgs @ filter_images pd ident False after (items pg)
                = filter (\<lambda>x. owned_by ident (i_userId x)) images'"
        by (simp add: images'_def im filter_images_by_id [of pd ident after _ who])
      show ?thesis
      proof (cases "\<not> cursor_truthy (nextCursor pg) \<or> date_stop pd after (map (\<lambda>img. dict_get (i_createdAt img)) (items pg))")
        case True
        with eq fp Some u have y: "y = (filter (\<lambda>x. owned_by ident (i_userId x)) images', s1)"
          by (auto simp: fi Let_def split: if_splits)
        have "get_images_loop api pd who True after cur images s = Some (images', s1)"
          using True by (subst get_images_loop.simps) (auto simp: fp Some images'_def Let_def)
        with y show ?thesis by simp
      next
        case False
        with eq fp Some u
        have "f api pd ident False after (nextCursor pg)
                (filter (\<lambda>x. owned_by ident (i_userId x)) images') s1 = Some y"
          by (auto simp: fi Let_def)
        from IH [OF this] obtain out where
          o: "get_images_loop api pd who True after (nextCursor pg) images' s1 = Some (out, snd y)"
          "fst y = filter (\<lambda>x. owned_by ident (i_userId x)) out" by auto
        have "get_images_loop api pd who True after cur images s = Some (out, snd y)"
          using False o(1)
          by (subst get_images_loop.simps) (auto simp: fp Some images'_def Let_def)
        with o(2) show ?thesis by simp
      qed
    qed
  qed
qed

lemma by_id_is_filtered_by_name:
  "get_images_loop api pd ident False after None [] fetch_start
     = map_option (\<lambda>r. (filter (\<lambda>x. owned_by ident (i_userId x)) (fst r), snd r))
         (get_images_loop api pd who True after None [] fetch_start)"
proof (cases "get_images_loop api pd who True after None [] fetch_start")
  case (Some y)
  with by_name_to_by_id [OF Some, of ident] show ?thesis by simp
next
  case None
  show ?thesis
  proof (cases "get_images_loop api pd ident False after None [] fetch_start")
    case n: None
    with None show ?thesis by simp
  next
    case (Some y)
    from by_id_to_by_name [OF Some, of who]
    have "\<exists>out. get_images_loop api pd who True after None [] fetch_start = Some (out, snd y)"
      by (auto elim!: allE [of _ "[]"])
    with None show ?thesis by simp
  qed
qed


section \<open>Properties: merging\<close>

lemma find_snoc:
  "find P (xs @ [y]) = (case find P xs of Some x \<Rightarrow> Some x | None \<Rightarrow> if P y then Some y else None)"
  by (induction xs) auto

lemma map_of_dict_set: "map_of (dict_set k v d) = (map_of d)(k \<mapsto> v)"
  by (induction d) (auto simp: fun_eq_iff)

lemma keys_dict_set: "fst ` set (dict_set k v d) = insert k (fst ` set d)"
proof (induction d)
  case Nil
  show ?case by simp
next
  case (Cons kv d)
  obtain k' v' where kv: "kv = (k', v')" by (cases kv)
  show ?case
  proof (cases "k' = k")
    case True
    then show ?thesis by (simp add: kv)
  next
    case False
    then show ?thesis using Cons.IH by (simp add: kv insert_commute)
  qed
qed

lemma values_dict_set: "snd ` set (dict_set k v d) \<subseteq> insert v (snd ` set d)"
proof (induction d)
  case Nil
  show ?case by simp
next
  case (Cons kv d)
  obtain k' v' where kv: "kv = (k', v')" by (cases kv)
  show ?case
  proof (cases "k' = k")
    case True
    then show ?thesis by (simp add: kv) blast
  next
    case False
    then show ?thesis using Cons.IH by (simp add: kv) blast
  qed
qed

lemma keyed_dict_set:
  assumes "keyed d" and "i_id v = Some k"
  shows "keyed (dict_set k v d)"
  using assms(1)
proof (induction d)
  case Nil
  show ?case using assms(2) by (simp add: keyed_def)
next
  case (Cons kv d)
  obtain k' v' where kv: "kv = (k', v')" by (cases kv)
  from Cons.prems have kd: "keyed d" and new: "k' \<notin> fst ` set d" and id: "i_id v' = Some k'"
    by (simp_all add: keyed_def kv)
  show ?case
  proof (cases "k' = k")
    case True
    with Cons.prems assms(2) show ?thesis by (simp add: keyed_def kv)
  next
    case False
    from Cons.IH [OF kd] have "keyed (dict_set k v d)" .
    with False new id show ?thesis
      by (simp add: keyed_def kv keys_dict_set)
  qed
qed

lemma dict_of_images_spec:
  assumes "dict_of_images images d = Inr d'" and "keyed d"
  shows "keyed d'
         \<and> (\<forall>k. map_of d' k = (case find (\<lambda>x. i_id x = Some k) (rev images) of
                                  Some x \<Rightarrow> Some x | None \<Rightarrow> map_of d k))
         \<and> snd ` set d' \<subseteq> set images \<union> snd ` set d"
  using assms
proof (induction images arbitrary: d)
  case Nil
  then show ?case by simp
next
  case (Cons img rest)
  from Cons.prems(1) obtain k where k: "i_id img = Some k"
    and r: "dict_of_images rest (dict_set k img d) = Inr d'"
    by (auto split: option.splits)
  from Cons.IH [OF r keyed_dict_set [OF Cons.prems(2) k]]
  have kd: "keyed d'"
    and m: "\<And>j. map_of d' j = (case find (\<lambda>x. i_id x = Some j) (rev rest) of
                                  Some x \<Rightarrow> Some x | None \<Rightarrow> map_of (dict_set k img d) j)"
    and s1: "snd ` set d' \<subseteq> set rest \<union> snd ` set (dict_set k img d)"
    by blast+
  have s2: "snd ` set (dict_set k img d) \<subseteq> insert img (snd ` set d)" by (rule values_dict_set)
  have "map_of d' j = (case find (\<lambda>x. i_id x = Some j) (rev (img # rest)) of
                          Some x \<Rightarrow> Some x | None \<Rightarrow> map_of d j)" for j
    using k by (simp add: m map_of_dict_set find_snoc split: option.splits)
  moreover have "snd ` set d' \<subseteq> set (img # rest) \<union> snd ` set d"
    using s1 s2 by (simp only: list.set) blast
  ultimately show ?case using kd by blast
qed

lemma add_post_items_spec:
  assumes "add_post_items posts d = Inr d'" and "keyed d"
  shows "keyed d'
         \<and> (\<forall>k. map_of d' k = (case map_of d k of
                                  Some x \<Rightarrow> Some x | None \<Rightarrow> find (\<lambda>x. i_id x = Some k) posts))
         \<and> snd ` set d' \<subseteq> set posts \<union> snd ` set d"
  using assms
proof (induction posts arbitrary: d)
  case Nil
  then show ?case by (auto split: option.splits)
next
  case (Cons p rest)
  from Cons.prems(1) obtain k where k: "i_id p = Some k" by (auto split: option.splits)
  show ?case
  proof (cases "map_of d k")
    case None
    with Cons.prems(1) k have r: "add_post_items rest (dict_set k p d) = Inr d'" by simp
    from Cons.IH [OF r keyed_dict_set [OF Cons.prems(2) k]]
    have kd: "keyed d'"
      and m: "\<And>j. map_of d' j = (case map_of (dict_set k p d) j of
                                  Some x \<Rightarrow> Some x | None \<Rightarrow> find (\<lambda>x. i_id x = Some j) rest)"
      and s1: "snd ` set d' \<subseteq> set rest \<union> snd ` set (dict_set k p d)"
      by blast+
    have s2: "snd ` set (dict_set k p d) \<subseteq> insert p (snd ` set d)" by (rule values_dict_set)
    have "map_of d' j = (case map_of d j of
                            Some x \<Rightarrow> Some x | None \<Rightarrow> find (\<lambda>x. i_id x = Some j) (p # rest))" for j
      using k None by (simp add: m map_of_dict_set split: option.splits)
    moreover have "snd ` set d' \<subseteq> set (p # rest) \<union> snd ` set d"
      using s1 s2 by (simp only: list.set) blast
    ultimately show ?thesis using kd by blast
  next
    case (Some x)
    with Cons.prems(1) k have r: "add_post_items rest d = Inr d'" by simp
    from Cons.IH [OF r Cons.prems(2)]
    have kd: "keyed d'"
      and m: "\<And>j. map_of d' j = (case map_of d j of
                                  Some x \<Rightarrow> Some x | None \<Rightarrow> find (\<lambda>x. i_id x = Some j) rest)"
      and s1: "snd ` set d' \<subseteq> set rest \<union> snd ` set d"
      by blast+
    have "map_of d' j = (case map_of d j of
                            Some x \<Rightarrow> Some x | None \<Rightarrow> find (\<lambda>x. i_id x = Some j) (p # rest))" for j
      using k Some by (auto simp: m split: option.splits)
    moreover have "snd ` set d' \<subseteq> set (p # rest) \<union> snd ` set d"
      using s1 by (simp only: list.set) blast
    ultimately show ?thesis using kd by blast
  qed
qed

lemma keyed_values:
  assumes "keyed d"
  shows "distinct (map i_id (map snd d))"
    and "find (\<lambda>x. i_id x = Some k) (map snd d) = map_of d k"
proof -
  show "distinct (map i_id (map snd d))"
    using assms
  proof (induction d)
    case Nil
    show ?case by simp
  next
    case (Cons kv d)
    obtain k' v' where kv: "kv = (k', v')" by (cases kv)
    from Cons.prems have kd: "keyed d" and new: "k' \<notin> fst ` set d" and id: "i_id v' = Some k'"
      and all: "\<forall>e \<in> set d. i_id (snd e) = Some (fst e)"
      by (simp_all add: keyed_def kv list_all_iff)
    have "Some k' \<notin> i_id ` snd ` set d"
    proof
      assume "Some k' \<in> i_id ` snd ` set d"
      then obtain e where "e \<in> set d" "i_id (snd e) = Some k'" by auto
      with all have "fst e = k'" by auto
      with \<open>e \<in> set d\<close> new show False by auto
    qed
    with Cons.IH [OF kd] id show ?case by (simp add: kv image_comp)
  qed
  show "find (\<lambda>x. i_id x = Some k) (map snd d) = map_of d k"
    using assms by (induction d) (auto simp: keyed_def)
qed

lemma merge_total:
  "(\<exists>out. merge_items images posts = Inr out) = (\<forall>x \<in> set (images @ posts). i_id x \<noteq> None)"
proof -
  have a: "(\<exists>d'. dict_of_images images d = Inr d') = (\<forall>x \<in> set images. i_id x \<noteq> None)" for d
    by (induction images arbitrary: d) (auto split: option.splits)
  have b: "(\<exists>d'. add_post_items posts d = Inr d') = (\<forall>x \<in> set posts. i_id x \<noteq> None)" for d
    by (induction posts arbitrary: d) (auto split: option.splits)
  show ?thesis
  proof (cases "dict_of_images images []")
    case (Inl e)
    with a [of "[]"] show ?thesis by (auto simp: merge_items_def)
  next
    case (Inr d)
    with a [of "[]"] b [of d] show ?thesis
      by (cases "add_post_items posts d") (auto simp: merge_items_def)
  qed
qed

text \<open>
  C4, amended. When the merge returns, no two items of the output share an id; the
  item kept for an id is the last record with that id in the direct sequence if there
  is one, and otherwise the first record with that id in the sequence derived from
  posts; every output item comes from an input, and every input id is represented.
\<close>

theorem merge_is_keyed_by_id:
  assumes "merge_items images posts = Inr out"
  shows "distinct (map i_id out)
         \<and> (\<forall>k. find (\<lambda>x. i_id x = Some k) out
                  = (case find (\<lambda>x. i_id x = Some k) (rev images) of
                       Some x \<Rightarrow> Some x
                     | None \<Rightarrow> find (\<lambda>x. i_id x = Some k) posts))
         \<and> set out \<subseteq> set images \<union> set posts
         \<and> (\<forall>x \<in> set (images @ posts). \<exists>y \<in> set out. i_id y = i_id x)"
proof -
  from assms obtain d d' where d: "dict_of_images images [] = Inr d"
    and d': "add_post_items posts d = Inr d'" and out: "out = map snd d'"
    by (auto simp: merge_items_def split: sum.splits)
  have k0: "keyed []" by (simp add: keyed_def)
  from dict_of_images_spec [OF d k0]
  have kd: "keyed d"
    and m1: "\<And>k. map_of d k = (case find (\<lambda>x. i_id x = Some k) (rev images) of
                                  Some x \<Rightarrow> Some x | None \<Rightarrow> None)"
    and v1: "snd ` set d \<subseteq> set images" by (auto split: option.splits)
  from add_post_items_spec [OF d' kd]
  have kd': "keyed d'"
    and m2: "\<And>k. map_of d' k = (case map_of d k of
                                  Some x \<Rightarrow> Some x | None \<Rightarrow> find (\<lambda>x. i_id x = Some k) posts)"
    and v2: "snd ` set d' \<subseteq> set posts \<union> snd ` set d" by blast+
  have f: "find (\<lambda>x. i_id x = Some k) out
            = (case find (\<lambda>x. i_id x = Some k) (rev images) of
                 Some x \<Rightarrow> Some x
               | None \<Rightarrow> find (\<lambda>x. i_id x = Some k) posts)" for k
    unfolding out keyed_values(2) [OF kd'] m2 m1 by (simp split: option.splits)
  have s: "set out \<subseteq> set images \<union> set posts" using v1 v2 unfolding out by (simp only: set_map) blast
  have c: "\<exists>y \<in> set out. i_id y = i_id x" if x: "x \<in> set (images @ posts)" for x
  proof -
    from merge_total [of images posts] assms x obtain k where k: "i_id x = Some k" by auto
    have "find (\<lambda>x. i_id x = Some k) out \<noteq> None"
    proof (cases "find (\<lambda>x. i_id x = Some k) (rev images)")
      case (Some y)
      then show ?thesis by (simp add: f)
    next
      case None
      then have "x \<notin> set images" using k by (auto simp: find_None_iff)
      with x have "x \<in> set posts" by simp
      with k have "find (\<lambda>x. i_id x = Some k) posts \<noteq> None" by (auto simp: find_None_iff)
      with None show ?thesis by (simp add: f)
    qed
    then obtain y where "find (\<lambda>x. i_id x = Some k) out = Some y" by auto
    then have "y \<in> set out \<and> i_id y = Some k" by (auto simp: find_Some_iff)
    with k show ?thesis by auto
  qed
  from keyed_values(1) [OF kd'] f s c show ?thesis unfolding out by blast
qed

lemma copies:
  "i_id first_copy = Some 1" "i_id second_copy = Some 1" "i_id foreign_item = Some 2"
  "first_copy \<noteq> second_copy"
  by (simp_all add: first_copy_def second_copy_def foreign_item_def png_item_def)

text \<open>
  C4, as stated, fails: of two records with the same id in the direct sequence the
  dictionary comprehension keeps the later one.
\<close>

theorem merge_keeps_last_direct_occurrence:
  "merge_items [first_copy, second_copy] [] = Inr [second_copy]
   \<and> i_id first_copy = i_id second_copy \<and> i_name first_copy = Some ''first''
   \<and> i_name second_copy = Some ''second''"
  by (simp add: merge_items_def copies first_copy_def second_copy_def png_item_def)

theorem merge_is_keyed_by_id_witness:
  "merge_items [first_copy, second_copy, foreign_item] [foreign_item\<lparr>i_name := Some ''late''\<rparr>, video_webm]
     = Inr [second_copy, foreign_item, video_webm]
   \<and> distinct (map i_id [second_copy, foreign_item, video_webm])
   \<and> find (\<lambda>x. i_id x = Some 1) [second_copy, foreign_item, video_webm] = Some second_copy
   \<and> find (\<lambda>x. i_id x = Some 2) [second_copy, foreign_item, video_webm] = Some foreign_item"
proof -
  have m: "merge_items [first_copy, second_copy, foreign_item]
             [foreign_item\<lparr>i_name := Some ''late''\<rparr>, video_webm]
           = Inr [second_copy, foreign_item, video_webm]"
    by (simp add: merge_items_def copies video_webm_def)
  from merge_is_keyed_by_id [OF m] show ?thesis
    using m by (simp add: copies video_webm_def)
qed

end
